theory Spec2Isabelle
  imports Main "HOL-Library.Sublist" "HOL-Library.Char_ord" "HOL-Library.List_Lexorder"
    "HOL-Library.AList"
begin

section \<open>The pattern \<open>gcsRegexp\<close> and \<open>splitGcsPath\<close>\<close>

text \<open>
  The program classifies its two arguments with one regular expression,
  \<^verbatim>\<open>regexp.MustCompile(`^gs://([^/]*)/(.*)$`)\<close>, and
  \<^verbatim>\<open>FindStringSubmatch\<close>. The pattern is kept as a program of the
  instructions it is made of, and run by a backtracking matcher with Go's
  leftmost-first preference: a star takes as many characters as it can and gives them
  back one at a time. A Go string is a sequence of bytes, here a \<open>string\<close>. The
  pattern tests single characters against \<open>/\<close> and the line feed only; both are ASCII,
  and no byte of a longer UTF-8 sequence equals either, so matching byte by byte agrees
  with matching rune by rune.

  Under the flags of \<^verbatim>\<open>regexp.Compile\<close> a negated class such as
  \<^verbatim>\<open>[^/]\<close> matches the line feed, the dot does not, and \<^verbatim>\<open>^\<close>
  and \<^verbatim>\<open>$\<close> match at the two ends of the text only.
\<close>

datatype cclass =
    Lit char          \<comment> \<open>one literal character\<close>
  | NotChar char      \<comment> \<open>\<^verbatim>\<open>[^c]\<close>\<close>
  | AnyNoNL           \<comment> \<open>\<^verbatim>\<open>.\<close>\<close>

fun cmatch :: "cclass \<Rightarrow> char \<Rightarrow> bool" where
  "cmatch (Lit c) x = (x = c)"
| "cmatch (NotChar c) x = (x \<noteq> c)"
| "cmatch AnyNoNL x = (x \<noteq> CHR 0x0A)"

datatype inst =
    BeginText         \<comment> \<open>\<^verbatim>\<open>^\<close>\<close>
  | EndText           \<comment> \<open>\<^verbatim>\<open>$\<close>\<close>
  | One cclass
  | Star cclass       \<comment> \<open>greedy \<^verbatim>\<open>*\<close> of a single-character class\<close>
  | CapOpen nat       \<comment> \<open>\<^verbatim>\<open>(\<close> of the group with this number\<close>
  | CapClose nat      \<comment> \<open>\<^verbatim>\<open>)\<close>\<close>

text \<open>
  \<open>run prog pos rest caps\<close> matches \<open>prog\<close> against \<open>rest\<close>, the text from offset
  \<open>pos\<close> on. \<open>caps\<close> holds the offsets of the groups, the start of group \<open>n\<close> at
  index \<open>2 * n\<close> and its end at \<open>2 * n + 1\<close>.
\<close>

fun run :: "inst list \<Rightarrow> nat \<Rightarrow> string \<Rightarrow> nat list \<Rightarrow> nat list option" where
  "run [] pos rest caps = Some caps"
| "run (BeginText # prog) pos rest caps =
     (if pos = 0 then run prog pos rest caps else None)"
| "run (EndText # prog) pos rest caps =
     (if rest = [] then run prog pos rest caps else None)"
| "run (One c # prog) pos [] caps = None"
| "run (One c # prog) pos (x # xs) caps =
     (if cmatch c x then run prog (Suc pos) xs caps else None)"
| "run (Star c # prog) pos [] caps = run prog pos [] caps"
| "run (Star c # prog) pos (x # xs) caps =
     (if cmatch c x
      then (case run (Star c # prog) (Suc pos) xs caps of
              Some r \<Rightarrow> Some r
            | None \<Rightarrow> run prog pos (x # xs) caps)
      else run prog pos (x # xs) caps)"
| "run (CapOpen n # prog) pos rest caps = run prog pos rest (caps[2 * n := pos])"
| "run (CapClose n # prog) pos rest caps = run prog pos rest (caps[2 * n + 1 := pos])"

text \<open>The search for the leftmost match tries every start offset in turn.\<close>

fun search :: "inst list \<Rightarrow> nat \<Rightarrow> string \<Rightarrow> nat list \<Rightarrow> nat list option" where
  "search prog pos [] caps = run prog pos [] caps"
| "search prog pos (x # xs) caps =
     (case run prog pos (x # xs) caps of
        Some r \<Rightarrow> Some r
      | None \<Rightarrow> search prog (Suc pos) xs caps)"

definition substr :: "string \<Rightarrow> nat \<Rightarrow> nat \<Rightarrow> string" where
  "substr s i j = take (j - i) (drop i s)"

text \<open>
  \<^verbatim>\<open>FindStringSubmatch\<close>: \<open>None\<close> is Go's nil; otherwise the text of the whole
  match followed by the text of each of the \<open>ngroups\<close> groups.
\<close>

definition FindStringSubmatch :: "inst list \<Rightarrow> nat \<Rightarrow> string \<Rightarrow> string list option" where
  "FindStringSubmatch prog ngroups s =
     (case search (CapOpen 0 # prog @ [CapClose 0]) 0 s (replicate (2 * Suc ngroups) 0) of
        None \<Rightarrow> None
      | Some caps \<Rightarrow>
          Some (map (\<lambda>n. substr s (caps ! (2 * n)) (caps ! (2 * n + 1))) [0..<Suc ngroups]))"

definition gcsRegexp :: "inst list" where
  "gcsRegexp =
     [BeginText,
      One (Lit CHR ''g''), One (Lit CHR ''s''), One (Lit CHR '':''),
      One (Lit CHR ''/''), One (Lit CHR ''/''),
      CapOpen 1, Star (NotChar CHR ''/''), CapClose 1,
      One (Lit CHR ''/''),
      CapOpen 2, Star AnyNoNL, CapClose 2,
      EndText]"

text \<open>
  A local path is held as the list of its elements, in the cleaned form
  \<^verbatim>\<open>filepath.Clean\<close> gives it, from the one directory the model's tree starts
  at. The errors are the Go error values the program can meet.
\<close>

type_synonym path = "string list"

datatype error =
    NotGcsPath string        \<comment> \<open>\<^verbatim>\<open>"%s" is not a valid GCS path\<close>\<close>
  | ENOENT path              \<comment> \<open>no such file or directory\<close>
  | ENOTDIR path             \<comment> \<open>not a directory\<close>
  | EISDIR path              \<comment> \<open>is a directory\<close>
  | EEXIST path              \<comment> \<open>file exists\<close>
  | EACCES path              \<comment> \<open>permission denied\<close>
  | EBADF path               \<comment> \<open>bad file descriptor\<close>
  | RelError path path       \<comment> \<open>\<^verbatim>\<open>Rel: can't make ... relative to ...\<close>\<close>
  | NoCredentials            \<comment> \<open>\<^verbatim>\<open>storage.NewClient\<close> found no credentials\<close>
  | BucketNotExist string
  | ObjectNotExist string string

definition splitGcsPath :: "string \<Rightarrow> string \<times> string \<times> error option" where
  "splitGcsPath path =
     (case FindStringSubmatch gcsRegexp 2 path of
        Some matches \<Rightarrow> (matches ! 1, matches ! 2, None)
      | None \<Rightarrow> ('''', '''', Some (NotGcsPath path)))"

text \<open>
  The tail of the pattern after the bucket's star, and after the key's star: the two
  continuations a star hands over to.
\<close>

definition key_prog :: "inst list" where
  "key_prog = [CapClose 2, EndText, CapClose 0]"

definition bucket_prog :: "inst list" where
  "bucket_prog = [CapClose 1, One (Lit CHR ''/''), CapOpen 2, Star AnyNoNL] @ key_prog"


section \<open>The local file tree, the buckets and the process\<close>

text \<open>
  The local file system is a tree: a file holds its bytes; a directory holds its
  entries by name, and a flag that is false when the directory cannot be listed (no
  read permission). A bucket holds its objects by name. Symbolic links, permissions
  other than that flag, and failures that the state does not decide (a full disk, a
  lost connection) are outside the model.
\<close>

datatype node = File string | Dir bool "(string \<times> node) list"

type_synonym bucket = "(string \<times> string) list"

datatype handle =
    LocalReader path | LocalWriter path
  | GcsReader string string | GcsWriter string string
  | Client

datatype loc = Local path | Gcs string string

datatype logline =
    Usage string             \<comment> \<open>\<^verbatim>\<open>Usage: %s <src> <dst>\<close>\<close>
  | From string              \<comment> \<open>\<^verbatim>\<open>From: %s\<close>\<close>
  | To string                \<comment> \<open>\<^verbatim>\<open>To: %s\<close>\<close>
  | Copying loc loc          \<comment> \<open>\<^verbatim>\<open>Copying from "%s" to "%s"\<close>\<close>
  | Failed error             \<comment> \<open>the message of \<^verbatim>\<open>log.Fatal(err)\<close>\<close>
  | Printed error            \<comment> \<open>the message of \<^verbatim>\<open>log.Println(err)\<close>\<close>
  | Panicked                 \<comment> \<open>a run-time panic: slice bounds out of range\<close>
  | Finished                 \<comment> \<open>\<^verbatim>\<open>Finished copying\<close>\<close>

record world =
  files :: node
  buckets :: "string \<Rightarrow> bucket option"
  credentials :: bool
  handles :: "handle list"
  log :: "logline list"

text \<open>
  A routine either returns, with a value and the world it leaves, or the process has
  exited with a status: \<^verbatim>\<open>log.Fatal\<close> prints and calls \<^verbatim>\<open>os.Exit(1)\<close>,
  a panic exits with status 2. Deferred calls do not run on exit.
\<close>

datatype 'a outcome = Ok 'a world | Exit nat world

fun final :: "'a outcome \<Rightarrow> world" where
  "final (Ok v w) = w"
| "final (Exit n w) = w"

definition log_Printf :: "logline \<Rightarrow> world \<Rightarrow> world" where
  "log_Printf l w = w\<lparr>log := log w @ [l]\<rparr>"

definition log_Fatal :: "error \<Rightarrow> world \<Rightarrow> 'a outcome" where
  "log_Fatal e w = Exit 1 (log_Printf (Failed e) w)"

definition panic :: "world \<Rightarrow> 'a outcome" where
  "panic w = Exit 2 (log_Printf Panicked w)"

subsection \<open>The tree\<close>

fun is_dir :: "node \<Rightarrow> bool" where
  "is_dir (Dir r es) = True"
| "is_dir (File c) = False"

fun lookup :: "node \<Rightarrow> path \<Rightarrow> node option" where
  "lookup n [] = Some n"
| "lookup (File c) (x # xs) = None"
| "lookup (Dir r es) (x # xs) =
     (case map_of es x of None \<Rightarrow> None | Some c \<Rightarrow> lookup c xs)"

text \<open>
  \<open>store p n t\<close> puts the node \<open>n\<close> at the path \<open>p\<close>, whose parent has to be a
  directory of \<open>t\<close>; an entry of that name is replaced.
\<close>

fun store :: "path \<Rightarrow> node \<Rightarrow> node \<Rightarrow> node option" where
  "store [] n t = None"
| "store (x # xs) n (File c) = None"
| "store [x] n (Dir r es) = Some (Dir r (AList.update x n es))"
| "store (x # y # ys) n (Dir r es) =
     (case map_of es x of
        None \<Rightarrow> None
      | Some c \<Rightarrow>
          (case store (y # ys) n c of
             None \<Rightarrow> None
           | Some c' \<Rightarrow> Some (Dir r (AList.update x c' es))))"

subsection \<open>Package \<open>os\<close> and the file handles\<close>

definition os_Stat :: "path \<Rightarrow> world \<Rightarrow> error + bool" where
  "os_Stat p w =
     (case lookup (files w) p of None \<Rightarrow> Inl (ENOENT p) | Some n \<Rightarrow> Inr (is_dir n))"

definition os_Mkdir :: "path \<Rightarrow> world \<Rightarrow> error + world" where
  "os_Mkdir p w =
     (case lookup (files w) p of
        Some n \<Rightarrow> Inl (EEXIST p)
      | None \<Rightarrow>
          (case store p (Dir True []) (files w) of
             None \<Rightarrow> Inl (ENOENT p)
           | Some t \<Rightarrow> Inr (w\<lparr>files := t\<rparr>)))"

text \<open>
  \<^verbatim>\<open>os.MkdirAll\<close>: nothing to do for a directory, an error for a file, and
  otherwise the parent first and then the directory itself.
\<close>

function os_MkdirAll :: "path \<Rightarrow> world \<Rightarrow> error + world" where
  "os_MkdirAll p w =
     (case lookup (files w) p of
        Some (Dir r es) \<Rightarrow> Inr w
      | Some (File c) \<Rightarrow> Inl (ENOTDIR p)
      | None \<Rightarrow>
          (if p = [] then Inl (ENOENT p)
           else (case os_MkdirAll (butlast p) w of
                   Inl e \<Rightarrow> Inl e
                 | Inr w' \<Rightarrow> os_Mkdir p w')))"
  by pat_completeness auto
termination
  by (relation "measure (\<lambda>(p, w). length p)") auto

declare os_MkdirAll.simps [simp del]

text \<open>\<^verbatim>\<open>os.Open\<close> opens for reading; a directory can be opened too.\<close>

definition os_Open :: "path \<Rightarrow> world \<Rightarrow> error + world" where
  "os_Open p w =
     (case lookup (files w) p of
        None \<Rightarrow> Inl (ENOENT p)
      | Some n \<Rightarrow> Inr (w\<lparr>handles := handles w @ [LocalReader p]\<rparr>))"

text \<open>
  \<^verbatim>\<open>os.OpenFile(name, os.O_WRONLY|os.O_CREATE|os.O_TRUNC, 0666)\<close>, the only
  flags the program uses: the file is created, or emptied if it is there.
\<close>

definition os_OpenFile :: "path \<Rightarrow> world \<Rightarrow> error + world" where
  "os_OpenFile p w =
     (case lookup (files w) p of
        Some (Dir r es) \<Rightarrow> Inl (EISDIR p)
      | _ \<Rightarrow>
          (case store p (File []) (files w) of
             None \<Rightarrow> Inl (ENOENT p)
           | Some t \<Rightarrow> Inr (w\<lparr>files := t, handles := handles w @ [LocalWriter p]\<rparr>)))"

text \<open>
  Reading through a handle reads what the file holds at the time of the read, not at
  the time it was opened.
\<close>

definition file_Read :: "path \<Rightarrow> world \<Rightarrow> error + string" where
  "file_Read p w =
     (case lookup (files w) p of
        Some (File c) \<Rightarrow> Inr c
      | Some (Dir r es) \<Rightarrow> Inl (EISDIR p)
      | None \<Rightarrow> Inl (EBADF p))"

definition file_Write :: "path \<Rightarrow> string \<Rightarrow> world \<Rightarrow> error + world" where
  "file_Write p c w =
     (case lookup (files w) p of
        Some (File old) \<Rightarrow>
          (case store p (File c) (files w) of
             None \<Rightarrow> Inl (EBADF p)
           | Some t \<Rightarrow> Inr (w\<lparr>files := t\<rparr>))
      | _ \<Rightarrow> Inl (EBADF p))"

definition handle_Close :: "handle \<Rightarrow> world \<Rightarrow> error + world" where
  "handle_Close h w = Inr (w\<lparr>handles := remove1 h (handles w)\<rparr>)"

definition file_Sync :: "path \<Rightarrow> world \<Rightarrow> error + world" where
  "file_Sync p w = Inr w"

text \<open>\<^verbatim>\<open>io.Copy(dst, src)\<close> between two local files.\<close>

definition io_Copy :: "path \<Rightarrow> path \<Rightarrow> world \<Rightarrow> error + world" where
  "io_Copy dst src w =
     (case file_Read src w of Inl e \<Rightarrow> Inl e | Inr c \<Rightarrow> file_Write dst c w)"

subsection \<open>Package \<open>filepath\<close>\<close>

text \<open>
  \<^verbatim>\<open>Clean\<close> drops empty elements and \<open>.\<close>, and lets \<open>..\<close> take back the
  element before it; at the start of the tree \<open>..\<close> stays where it is.
\<close>

definition clean_step :: "path \<Rightarrow> string \<Rightarrow> path" where
  "clean_step acc e =
     (if e = [] \<or> e = ''.'' then acc
      else if e = ''..'' then butlast acc
      else acc @ [e])"

definition filepath_Clean :: "path \<Rightarrow> path" where
  "filepath_Clean p = foldl clean_step [] p"

definition filepath_Join :: "path \<Rightarrow> path \<Rightarrow> path" where
  "filepath_Join a b = filepath_Clean (a @ b)"

definition filepath_Dir :: "path \<Rightarrow> path" where
  "filepath_Dir p = butlast (filepath_Clean p)"

fun strip_common :: "path \<Rightarrow> path \<Rightarrow> path \<times> path" where
  "strip_common (x # xs) (y # ys) =
     (if x = y then strip_common xs ys else (x # xs, y # ys))"
| "strip_common xs ys = (xs, ys)"

text \<open>
  \<^verbatim>\<open>Rel\<close>: the common leading elements go, every element left of the base
  becomes \<open>..\<close>, and what is left of the target follows. The result \<open>.\<close> of Go is the
  empty list here.
\<close>

definition filepath_Rel :: "path \<Rightarrow> path \<Rightarrow> error + path" where
  "filepath_Rel basepath targpath =
     (case strip_common (filepath_Clean basepath) (filepath_Clean targpath) of
        (b, t) \<Rightarrow>
          if b \<noteq> [] \<and> hd b = ''..'' then Inl (RelError targpath basepath)
          else Inr (replicate (length b) ''..'' @ t))"

text \<open>The elements of a path given as a string, and the string of a relative path.\<close>

fun splitOn :: "char \<Rightarrow> string \<Rightarrow> string list" where
  "splitOn c [] = [[]]"
| "splitOn c (x # xs) =
     (if x = c then [] # splitOn c xs
      else (case splitOn c xs of y # ys \<Rightarrow> (x # y) # ys | [] \<Rightarrow> [[x]]))"

definition parsePath :: "string \<Rightarrow> path" where
  "parsePath s = filepath_Clean (splitOn CHR ''/'' s)"

fun joinSep :: "string list \<Rightarrow> string" where
  "joinSep [] = []"
| "joinSep [x] = x"
| "joinSep (x # y # ys) = x @ ''/'' @ joinSep (y # ys)"

definition pathString :: "path \<Rightarrow> string" where
  "pathString p = (if p = [] then ''.'' else joinSep p)"

text \<open>
  \<^verbatim>\<open>filepath.Walk\<close> calls the function on the root, and for a directory on
  every entry below it, the names of each directory in sorted order. A directory that
  cannot be listed is handed over with the error, and not entered. The walk goes over
  the tree as it is when the walk starts; the functions this program passes never
  return an error, and never write below the root unless the destination lies there.
\<close>

type_synonym visit = "path \<times> bool \<times> error option"

fun walk :: "path \<Rightarrow> node \<Rightarrow> visit list" where
  "walk p (File c) = [(p, False, None)]"
| "walk p (Dir r es) =
     (if \<not> r then [(p, True, Some (EACCES p))]
      else (p, True, None) #
           concat (map (\<lambda>e. walk (filepath_Join p [fst e]) (snd e)) (sort_key fst es)))"

fun walk_visits ::
    "(visit \<Rightarrow> world \<Rightarrow> error option outcome) \<Rightarrow> visit list \<Rightarrow> world \<Rightarrow> error option outcome"
where
  "walk_visits fn [] w = Ok None w"
| "walk_visits fn (v # vs) w =
     (case fn v w of
        Ok None w' \<Rightarrow> walk_visits fn vs w'
      | Ok (Some e) w' \<Rightarrow> Ok (Some e) w'
      | Exit n w' \<Rightarrow> Exit n w')"

definition filepath_Walk ::
    "path \<Rightarrow> (visit \<Rightarrow> world \<Rightarrow> error option outcome) \<Rightarrow> world \<Rightarrow> error option outcome"
where
  "filepath_Walk root fn w =
     (case lookup (files w) root of
        None \<Rightarrow> fn (root, False, Some (ENOENT root)) w
      | Some n \<Rightarrow> walk_visits fn (walk root n) w)"

subsection \<open>The storage client\<close>

definition storage_NewClient :: "world \<Rightarrow> error + world" where
  "storage_NewClient w =
     (if credentials w then Inr (w\<lparr>handles := handles w @ [Client]\<rparr>)
      else Inl NoCredentials)"

text \<open>
  The listing of \<^verbatim>\<open>Bucket(b).Objects(ctx, &storage.Query{Prefix: p})\<close>: the
  names that begin with \<open>p\<close>, in the order of the names. The listing is taken when
  the loop starts.
\<close>

definition gcs_Objects :: "string \<Rightarrow> string \<Rightarrow> world \<Rightarrow> error + string list" where
  "gcs_Objects b p w =
     (case buckets w b of
        None \<Rightarrow> Inl (BucketNotExist b)
      | Some objs \<Rightarrow> Inr (sort (filter (prefix p) (map fst objs))))"

definition gcs_NewReader :: "string \<Rightarrow> string \<Rightarrow> world \<Rightarrow> error + string \<times> world" where
  "gcs_NewReader b k w =
     (case buckets w b of
        None \<Rightarrow> Inl (BucketNotExist b)
      | Some objs \<Rightarrow>
          (case map_of objs k of
             None \<Rightarrow> Inl (ObjectNotExist b k)
           | Some c \<Rightarrow> Inr (c, w\<lparr>handles := handles w @ [GcsReader b k]\<rparr>)))"

definition gcs_NewWriter :: "string \<Rightarrow> string \<Rightarrow> world \<Rightarrow> world" where
  "gcs_NewWriter b k w = w\<lparr>handles := handles w @ [GcsWriter b k]\<rparr>"

text \<open>Closing the writer commits what was written to it as the object.\<close>

definition gcs_Writer_Close :: "string \<Rightarrow> string \<Rightarrow> string \<Rightarrow> world \<Rightarrow> error + world" where
  "gcs_Writer_Close b k c w =
     (case buckets w b of
        None \<Rightarrow> Inl (BucketNotExist b)
      | Some objs \<Rightarrow>
          Inr (w\<lparr>buckets := (buckets w)(b \<mapsto> AList.update k c objs),
                 handles := remove1 (GcsWriter b k) (handles w)\<rparr>))"

text \<open>\<^verbatim>\<open>Bucket(db).Object(dk).CopierFrom(Bucket(sb).Object(sk)).Run(ctx)\<close>.\<close>

definition gcs_Copier_Run ::
    "string \<Rightarrow> string \<Rightarrow> string \<Rightarrow> string \<Rightarrow> world \<Rightarrow> error + world"
where
  "gcs_Copier_Run sb sk db dk w =
     (case buckets w sb of
        None \<Rightarrow> Inl (BucketNotExist sb)
      | Some sobjs \<Rightarrow>
          (case map_of sobjs sk of
             None \<Rightarrow> Inl (ObjectNotExist sb sk)
           | Some c \<Rightarrow>
               (case buckets w db of
                  None \<Rightarrow> Inl (BucketNotExist db)
                | Some dobjs \<Rightarrow>
                    Inr (w\<lparr>buckets := (buckets w)(db \<mapsto> AList.update dk c dobjs)\<rparr>))))"

text \<open>
  \<^verbatim>\<open>s[n:]\<close> panics when \<open>n\<close> is beyond the length of \<open>s\<close>;
  \<^verbatim>\<open>strings.HasSuffix(s, "/")\<close>.
\<close>

definition slice_from :: "nat \<Rightarrow> string \<Rightarrow> string option" where
  "slice_from n s = (if n \<le> length s then Some (drop n s) else None)"

definition HasSuffix :: "string \<Rightarrow> string \<Rightarrow> bool" where
  "HasSuffix s suf = suffix suf s"


section \<open>The program\<close>

subsection \<open>From a bucket to local files\<close>

text \<open>
  The two deferred \<^verbatim>\<open>Close\<close> calls run when the routine returns. The
  client is not closed.
\<close>

definition copyFileFromGcsToLocal :: "string \<Rightarrow> string \<Rightarrow> path \<Rightarrow> world \<Rightarrow> unit outcome" where
  "copyFileFromGcsToLocal srcBucket srcFilePath dstFilePath w =
     (case storage_NewClient w of
        Inl e \<Rightarrow> log_Fatal e w
      | Inr w1 \<Rightarrow>
     let w2 = log_Printf (Copying (Gcs srcBucket srcFilePath) (Local dstFilePath)) w1 in
     (case gcs_NewReader srcBucket srcFilePath w2 of
        Inl e \<Rightarrow> log_Fatal e w2
      | Inr (srcReader, w3) \<Rightarrow>
     (case os_MkdirAll (filepath_Dir dstFilePath) w3 of
        Inl e \<Rightarrow> log_Fatal e w3
      | Inr w4 \<Rightarrow>
     (case os_OpenFile dstFilePath w4 of
        Inl e \<Rightarrow> log_Fatal e w4
      | Inr w5 \<Rightarrow>
     (case file_Write dstFilePath srcReader w5 of
        Inl e \<Rightarrow> log_Fatal e w5
      | Inr w6 \<Rightarrow>
     (case file_Sync dstFilePath w6 of
        Inl e \<Rightarrow> log_Fatal e w6
      | Inr w7 \<Rightarrow>
          Ok () (w7\<lparr>handles :=
                    remove1 (GcsReader srcBucket srcFilePath)
                      (remove1 (LocalWriter dstFilePath) (handles w7))\<rparr>)))))))"

fun copyFromGcsToLocal_loop ::
    "string \<Rightarrow> string \<Rightarrow> path \<Rightarrow> string list \<Rightarrow> world \<Rightarrow> error option outcome"
where
  "copyFromGcsToLocal_loop srcBucket srcPath dstPath [] w = Ok None w"
| "copyFromGcsToLocal_loop srcBucket srcPath dstPath (srcFilePath # rest) w =
     (case slice_from (length srcPath) srcFilePath of
        None \<Rightarrow> panic w
      | Some relPath \<Rightarrow>
          (case (if relPath = []
                 then copyFileFromGcsToLocal srcBucket srcFilePath dstPath w
                 else copyFileFromGcsToLocal srcBucket srcFilePath
                        (filepath_Join dstPath (splitOn CHR ''/'' relPath)) w) of
             Ok u w' \<Rightarrow> copyFromGcsToLocal_loop srcBucket srcPath dstPath rest w'
           | Exit n w' \<Rightarrow> Exit n w'))"

definition copyFromGcsToLocal ::
    "string \<Rightarrow> string \<Rightarrow> path \<Rightarrow> world \<Rightarrow> error option outcome"
where
  "copyFromGcsToLocal srcBucket srcPath dstPath w =
     (case storage_NewClient w of
        Inl e \<Rightarrow> log_Fatal e w
      | Inr w1 \<Rightarrow>
          (case gcs_Objects srcBucket srcPath w1 of
             Inl e \<Rightarrow> log_Fatal e w1
           | Inr names \<Rightarrow> copyFromGcsToLocal_loop srcBucket srcPath dstPath names w1))"

subsection \<open>From local files to a bucket\<close>

text \<open>The source file is opened and not closed; the deferred call closes the client.\<close>

definition copyFileFromLocalToGcs :: "path \<Rightarrow> string \<Rightarrow> string \<Rightarrow> world \<Rightarrow> unit outcome" where
  "copyFileFromLocalToGcs srcFilePath dstBucket dstFilePath w =
     (case storage_NewClient w of
        Inl e \<Rightarrow> log_Fatal e w
      | Inr w1 \<Rightarrow>
     (case os_Open srcFilePath w1 of
        Inl e \<Rightarrow> log_Fatal e w1
      | Inr w2 \<Rightarrow>
     let w3 = log_Printf (Copying (Local srcFilePath) (Gcs dstBucket dstFilePath)) w2;
         w4 = gcs_NewWriter dstBucket dstFilePath w3 in
     (case file_Read srcFilePath w4 of
        Inl e \<Rightarrow> log_Fatal e w4
      | Inr written \<Rightarrow>
     (case gcs_Writer_Close dstBucket dstFilePath written w4 of
        Inl e \<Rightarrow> log_Fatal e w4
      | Inr w5 \<Rightarrow> Ok () (w5\<lparr>handles := remove1 Client (handles w5)\<rparr>)))))"

definition copyFromLocalToGcs_fn ::
    "path \<Rightarrow> string \<Rightarrow> string \<Rightarrow> visit \<Rightarrow> world \<Rightarrow> error option outcome"
where
  "copyFromLocalToGcs_fn srcPath dstBucket dstPath v w =
     (case v of (srcFilePath, isDir, err) \<Rightarrow>
     (case err of
        Some e \<Rightarrow> log_Fatal e w
      | None \<Rightarrow>
     (case filepath_Rel srcPath srcFilePath of
        Inl e \<Rightarrow> log_Fatal e w
      | Inr relFilePath \<Rightarrow>
          if relFilePath \<noteq> [] \<and> \<not> isDir
          then (case copyFileFromLocalToGcs srcFilePath dstBucket
                       ((if \<not> HasSuffix dstPath ''/'' then dstPath @ ''/'' else dstPath)
                          @ pathString relFilePath) w of
                  Ok u w' \<Rightarrow> Ok None w'
                | Exit n w' \<Rightarrow> Exit n w')
          else Ok None w)))"

definition copyFromLocalToGcs :: "path \<Rightarrow> string \<Rightarrow> string \<Rightarrow> world \<Rightarrow> unit outcome" where
  "copyFromLocalToGcs srcPath dstBucket dstPath w =
     (case os_Stat srcPath w of
        Inl e \<Rightarrow> log_Fatal e w
      | Inr fi \<Rightarrow>
          if \<not> fi then copyFileFromLocalToGcs srcPath dstBucket dstPath w
          else (case filepath_Walk srcPath (copyFromLocalToGcs_fn srcPath dstBucket dstPath) w of
                  Ok (Some e) w' \<Rightarrow> Ok () (log_Printf (Printed e) w')
                | Ok None w' \<Rightarrow> Ok () w'
                | Exit n w' \<Rightarrow> Exit n w'))"

subsection \<open>From a bucket to a bucket\<close>

definition copyFileFromGcsToGcs ::
    "string \<Rightarrow> string \<Rightarrow> string \<Rightarrow> string \<Rightarrow> world \<Rightarrow> unit outcome"
where
  "copyFileFromGcsToGcs srcBucket srcFilePath dstBucket dstFilePath w =
     (case storage_NewClient w of
        Inl e \<Rightarrow> log_Fatal e w
      | Inr w1 \<Rightarrow>
     let w2 = log_Printf (Copying (Gcs srcBucket srcFilePath) (Gcs dstBucket dstFilePath)) w1 in
     (case gcs_Copier_Run srcBucket srcFilePath dstBucket dstFilePath w2 of
        Inl e \<Rightarrow> log_Fatal e w2
      | Inr w3 \<Rightarrow> Ok () (w3\<lparr>handles := remove1 Client (handles w3)\<rparr>)))"

fun copyFromGcsToGcs_loop ::
    "string \<Rightarrow> string \<Rightarrow> string \<Rightarrow> string \<Rightarrow> string list \<Rightarrow> world \<Rightarrow> error option outcome"
where
  "copyFromGcsToGcs_loop srcBucket srcPath dstBucket dstPath [] w = Ok None w"
| "copyFromGcsToGcs_loop srcBucket srcPath dstBucket dstPath (srcFilePath # rest) w =
     (case slice_from (length srcPath) srcFilePath of
        None \<Rightarrow> panic w
      | Some relFilePath \<Rightarrow>
          (case (if relFilePath = []
                 then copyFileFromGcsToGcs srcBucket srcFilePath dstBucket dstPath w
                 else copyFileFromGcsToGcs srcBucket srcFilePath dstBucket
                        ((if \<not> HasSuffix dstPath ''/'' then dstPath @ ''/'' else dstPath)
                           @ relFilePath) w) of
             Ok u w' \<Rightarrow> copyFromGcsToGcs_loop srcBucket srcPath dstBucket dstPath rest w'
           | Exit n w' \<Rightarrow> Exit n w'))"

definition copyFromGcsToGcs ::
    "string \<Rightarrow> string \<Rightarrow> string \<Rightarrow> string \<Rightarrow> world \<Rightarrow> error option outcome"
where
  "copyFromGcsToGcs srcBucket srcPath dstBucket dstPath w =
     (case storage_NewClient w of
        Inl e \<Rightarrow> log_Fatal e w
      | Inr w1 \<Rightarrow>
          (case gcs_Objects srcBucket srcPath w1 of
             Inl e \<Rightarrow> log_Fatal e w1
           | Inr names \<Rightarrow>
               copyFromGcsToGcs_loop srcBucket srcPath dstBucket dstPath names w1))"

subsection \<open>From local files to local files\<close>

text \<open>
  The source is opened first and the destination is emptied before a byte is read.
  Only the destination is closed.
\<close>

definition copyFileFromLocalToLocal :: "path \<Rightarrow> path \<Rightarrow> world \<Rightarrow> unit outcome" where
  "copyFileFromLocalToLocal srcFilePath dstFilePath w =
     (case os_Open srcFilePath w of
        Inl e \<Rightarrow> log_Fatal e w
      | Inr w1 \<Rightarrow>
     (case os_MkdirAll (filepath_Dir dstFilePath) w1 of
        Inl e \<Rightarrow> log_Fatal e w1
      | Inr w2 \<Rightarrow>
     (case os_OpenFile dstFilePath w2 of
        Inl e \<Rightarrow> log_Fatal e w2
      | Inr w3 \<Rightarrow>
     let w4 = log_Printf (Copying (Local srcFilePath) (Local dstFilePath)) w3 in
     (case io_Copy dstFilePath srcFilePath w4 of
        Inl e \<Rightarrow> log_Fatal e w4
      | Inr w5 \<Rightarrow>
     (case handle_Close (LocalWriter dstFilePath) w5 of
        Inl e \<Rightarrow> log_Fatal e w5
      | Inr w6 \<Rightarrow> Ok () w6)))))"

definition copyFromLocalToLocal_fn ::
    "path \<Rightarrow> path \<Rightarrow> visit \<Rightarrow> world \<Rightarrow> error option outcome"
where
  "copyFromLocalToLocal_fn srcPath dstPath v w =
     (case v of (srcFilePath, isDir, err) \<Rightarrow>
     (case err of
        Some e \<Rightarrow> log_Fatal e w
      | None \<Rightarrow>
     (case filepath_Rel srcPath srcFilePath of
        Inl e \<Rightarrow> log_Fatal e w
      | Inr relFilePath \<Rightarrow>
          if relFilePath \<noteq> [] \<and> \<not> isDir
          then (case copyFileFromLocalToLocal srcFilePath (filepath_Join dstPath relFilePath) w of
                  Ok u w' \<Rightarrow> Ok None w'
                | Exit n w' \<Rightarrow> Exit n w')
          else Ok None w)))"

definition copyFromLocalToLocal :: "path \<Rightarrow> path \<Rightarrow> world \<Rightarrow> unit outcome" where
  "copyFromLocalToLocal srcPath dstPath w =
     (case os_Stat srcPath w of
        Inl e \<Rightarrow> log_Fatal e w
      | Inr fi \<Rightarrow>
          if \<not> fi then copyFileFromLocalToLocal srcPath dstPath w
          else (case filepath_Walk srcPath (copyFromLocalToLocal_fn srcPath dstPath) w of
                  Ok (Some e) w' \<Rightarrow> Ok () (log_Printf (Printed e) w')
                | Ok None w' \<Rightarrow> Ok () w'
                | Exit n w' \<Rightarrow> Exit n w'))"

subsection \<open>\<open>main\<close>\<close>

text \<open>
  \<open>prog\<close> is \<^verbatim>\<open>os.Args[0]\<close> and \<open>args\<close> are the positional arguments
  \<^verbatim>\<open>flag.Args()\<close>. The results of the two routines that return an error are
  dropped, as in the source.
\<close>

definition main :: "string \<Rightarrow> string list \<Rightarrow> world \<Rightarrow> unit outcome" where
  "main prog args w =
     (if length args < 2 then Exit 1 (log_Printf (Usage prog) w)
      else
        let from = args ! 0; to = args ! 1;
            w1 = log_Printf (To to) (log_Printf (From from) w)
        in
        (case splitGcsPath from of (fromBkt, fromObj, err1) \<Rightarrow>
        (case splitGcsPath to of (toBkt, toObj, err2) \<Rightarrow>
        let srcIsGcs = (err1 = None); dstIsGcs = (err2 = None) in
        (case (if srcIsGcs
               then (if dstIsGcs
                     then (case copyFromGcsToGcs fromBkt fromObj toBkt toObj w1 of
                             Ok r w' \<Rightarrow> Ok () w' | Exit n w' \<Rightarrow> Exit n w')
                     else (case copyFromGcsToLocal fromBkt fromObj (parsePath to) w1 of
                             Ok r w' \<Rightarrow> Ok () w' | Exit n w' \<Rightarrow> Exit n w'))
               else (if dstIsGcs
                     then copyFromLocalToGcs (parsePath from) toBkt toObj w1
                     else copyFromLocalToLocal (parsePath from) (parsePath to) w1)) of
           Ok u w' \<Rightarrow> Ok () (log_Printf Finished w')
         | Exit n w' \<Rightarrow> Exit n w'))))"


section \<open>What is observed of a tree\<close>

text \<open>
  What a path names in a tree: nothing, a directory, or a file with its bytes. Two
  trees with the same \<open>kind_at\<close> hold the same files with the same contents under the
  same directories.
\<close>

datatype kind = IsFile string | IsDir

definition kind_at :: "node \<Rightarrow> path \<Rightarrow> kind option" where
  "kind_at t p =
     (case lookup t p of
        None \<Rightarrow> None
      | Some (File c) \<Rightarrow> Some (IsFile c)
      | Some (Dir r es) \<Rightarrow> Some IsDir)"

text \<open>
  A path in cleaned form has no empty element, no \<open>.\<close> and no \<open>..\<close>; a name of a
  directory entry has no slash either. In a well-formed tree the names of a directory
  are such names and differ from each other. \<open>listable\<close> holds when every directory of
  the tree can be listed.
\<close>

definition valid_path :: "path \<Rightarrow> bool" where
  "valid_path p = (\<forall>e\<in>set p. e \<noteq> [] \<and> e \<noteq> ''.'' \<and> e \<noteq> ''..'')"

fun wf_node :: "node \<Rightarrow> bool" where
  "wf_node (File c) = True"
| "wf_node (Dir r es) =
     (distinct (map fst es) \<and>
      (\<forall>e\<in>set es. valid_path [fst e] \<and> CHR ''/'' \<notin> set (fst e) \<and> wf_node (snd e)))"

fun listable :: "node \<Rightarrow> bool" where
  "listable (File c) = True"
| "listable (Dir r es) = (r \<and> (\<forall>e\<in>set es. listable (snd e)))"

text \<open>The paths of the files of a tree, relative to its root, in the order of the walk.\<close>

fun leaves :: "node \<Rightarrow> path list" where
  "leaves (File c) = [[]]"
| "leaves (Dir r es) =
     concat (map (\<lambda>e. map ((#) (fst e)) (leaves (snd e))) (sort_key fst es))"

text \<open>One transfer for each of a list of relative paths, in turn, until one exits.\<close>

fun copy_rels :: "path \<Rightarrow> path \<Rightarrow> path list \<Rightarrow> world \<Rightarrow> error option outcome" where
  "copy_rels src dst [] w = Ok None w"
| "copy_rels src dst (r # rs) w =
     (case copyFileFromLocalToLocal (src @ r) (dst @ r) w of
        Ok u w' \<Rightarrow> copy_rels src dst rs w'
      | Exit n w' \<Rightarrow> Exit n w')"

text \<open>
  What one finished transfer to the local path \<open>d\<close> leaves there: the file with its
  bytes, under directories.
\<close>

definition put_map :: "path \<Rightarrow> string \<Rightarrow> path \<Rightarrow> kind option" where
  "put_map d c q =
     (if q = d then Some (IsFile c) else if prefix q d then Some IsDir else None)"

text \<open>No file stands at the path \<open>p\<close> or above it, so that its directories can be made.\<close>

definition no_file_on :: "node \<Rightarrow> path \<Rightarrow> bool" where
  "no_file_on t p =
     (\<forall>q\<in>set (prefixes p). case kind_at t q of Some (IsFile c) \<Rightarrow> False | _ \<Rightarrow> True)"

definition object_at :: "world \<Rightarrow> string \<Rightarrow> string \<Rightarrow> string option" where
  "object_at w b k = (case buckets w b of None \<Rightarrow> None | Some objs \<Rightarrow> map_of objs k)"


text \<open>A small world to run the routines in.\<close>

definition demo_world :: world where
  "demo_world =
     \<lparr>files = Dir True
        [(''a'', Dir True
           [(''sub'', Dir True [(''2.txt'', File ''two'')]),
            (''1.txt'', File ''one''),
            (''empty'', Dir True [])]),
         (''f'', File ''hello'')],
      buckets = [''bkt'' \<mapsto> [(''d/x'', ''X''), (''d/y/z'', ''Z''), (''dd'', ''DD'')]],
      credentials = True, handles = [], log = []\<rparr>"

text \<open>A world with a directory that cannot be listed, next to a file.\<close>

definition locked_world :: world where
  "locked_world =
     \<lparr>files = Dir True
        [(''a'', Dir True [(''locked'', Dir False []), (''z.txt'', File ''zed'')])],
      buckets = Map.empty,
      credentials = True, handles = [], log = []\<rparr>"

text \<open>The transfers a log tells of, in order.\<close>

fun transfers :: "logline list \<Rightarrow> (loc \<times> loc) list" where
  "transfers [] = []"
| "transfers (Copying s d # ls) = (s, d) # transfers ls"
| "transfers (l # ls) = transfers ls"

text \<open>
  In the tree \<open>t\<close> every destination of the list \<open>ds\<close> is a file, under directories: the
  shape that transfers to these destinations leave and that later transfers keep.
\<close>

definition settled :: "node \<Rightarrow> path list \<Rightarrow> bool" where
  "settled t ds =
     (\<forall>d\<in>set ds. d \<noteq> [] \<and>
        (\<forall>q\<in>set (prefixes (butlast d)). kind_at t q = Some IsDir) \<and>
        (case kind_at t d of Some (IsFile c) \<Rightarrow> True | _ \<Rightarrow> False))"

text \<open>A world with one file in one directory.\<close>

definition small_world :: world where
  "small_world =
     \<lparr>files = Dir True [(''a'', Dir True [(''f'', File ''x'')])],
      buckets = Map.empty,
      credentials = True, handles = [], log = []\<rparr>"

text \<open>What a list of finished transfers leaves, the later over the earlier.\<close>

fun puts_map :: "(path \<times> string) list \<Rightarrow> path \<Rightarrow> kind option" where
  "puts_map [] = Map.empty"
| "puts_map ((d, c) # xs) = put_map d c ++ puts_map xs"

text \<open>The local destination of a listed name, as the loop works it out.\<close>

definition local_dest :: "string \<Rightarrow> path \<Rightarrow> string \<Rightarrow> path" where
  "local_dest srcPath dstPath name =
     (if drop (length srcPath) name = [] then dstPath
      else filepath_Join dstPath (splitOn CHR ''/'' (drop (length srcPath) name)))"

text \<open>All objects of all buckets, by bucket and name.\<close>

definition objects :: "world \<Rightarrow> string \<times> string \<Rightarrow> string option" where
  "objects w = (\<lambda>(b, k). object_at w b k)"

text \<open>The key in the destination bucket of a listed name, as the loop works it out.\<close>

definition gcs_dest :: "string \<Rightarrow> string \<Rightarrow> string \<Rightarrow> string" where
  "gcs_dest srcPath dstPath name =
     (if drop (length srcPath) name = [] then dstPath
      else (if \<not> HasSuffix dstPath ''/'' then dstPath @ ''/'' else dstPath) @
           drop (length srcPath) name)"

text \<open>A bucket with an object below the key of another.\<close>

definition overlap_world :: world where
  "overlap_world =
     \<lparr>files = Dir True [],
      buckets = [''bkt'' \<mapsto> [(''d/x'', ''X''), (''d/y/x'', ''old'')]],
      credentials = True, handles = [], log = []\<rparr>"



section \<open>What the pattern accepts\<close>

lemma run_star_greedy:
  assumes stuck: "\<And>p x xs cs. cmatch c x \<Longrightarrow> run prog p (x # xs) cs = None"
    and all: "\<forall>x\<in>set b. cmatch c x"
    and stop: "rest = [] \<or> \<not> cmatch c (hd rest)"
  shows "run (Star c # prog) pos (b @ rest) caps = run prog (pos + length b) rest caps"
  using all
proof (induction b arbitrary: pos)
  case Nil
  from stop show ?case by (cases rest) auto
next
  case (Cons y ys)
  then have y: "cmatch c y" and IH: "run (Star c # prog) (Suc pos) (ys @ rest) caps = run prog (Suc pos + length ys) rest caps"
    by auto
  show ?case
    using y IH stuck [OF y, of pos "ys @ rest" caps]
    by (simp split: option.split)
qed

lemma run_lits:
  "run (map (\<lambda>c. One (Lit c)) lits @ prog) pos s caps =
     (if prefix lits s then run prog (pos + length lits) (drop (length lits) s) caps else None)"
proof (induction lits arbitrary: pos s)
  case Nil
  show ?case by simp
next
  case (Cons l ls)
  show ?case by (cases s) (simp_all add: Cons.IH)
qed

lemma search_anchored:
  "0 < pos \<Longrightarrow> search (CapOpen n # BeginText # prog) pos s caps = None"
  by (induction s arbitrary: pos) simp_all

lemma search_anchored0:
  "search (CapOpen n # BeginText # prog) 0 s caps = run (CapOpen n # BeginText # prog) 0 s caps"
  by (cases s) (simp_all add: search_anchored split: option.split)

lemma gcs_prog_eq:
  "CapOpen 0 # gcsRegexp @ [CapClose 0] =
     CapOpen 0 # BeginText # map (\<lambda>c. One (Lit c)) ''gs://'' @ CapOpen 1 # Star (NotChar CHR ''/'') # bucket_prog"
  by (simp add: gcsRegexp_def bucket_prog_def key_prog_def)

lemma run_key:
  "run (Star AnyNoNL # key_prog) pos k caps =
     (if CHR 0x0A \<in> set k then None
      else Some (caps[5 := pos + length k, 1 := pos + length k]))"
proof -
  let ?a = "takeWhile (\<lambda>x. x \<noteq> CHR 0x0A) k" and ?r = "dropWhile (\<lambda>x. x \<noteq> CHR 0x0A) k"
  have "run (Star AnyNoNL # key_prog) pos (?a @ ?r) caps = run key_prog (pos + length ?a) ?r caps"
  proof (rule run_star_greedy)
    show "?r = [] \<or> \<not> cmatch AnyNoNL (hd ?r)"
      using hd_dropWhile [of "\<lambda>x. x \<noteq> CHR 0x0A" k] by auto
    show "\<forall>x\<in>set ?a. cmatch AnyNoNL x" by (auto dest: set_takeWhileD)
  qed (simp add: key_prog_def)
  then have step: "run (Star AnyNoNL # key_prog) pos k caps = run key_prog (pos + length ?a) ?r caps"
    by simp
  show ?thesis
  proof (cases "CHR 0x0A \<in> set k")
    case True
    then obtain x xs where r: "?r = x # xs"
      by (cases ?r) (auto simp: dropWhile_eq_Nil_conv)
    have "run key_prog (pos + length ?a) (x # xs) caps = None"
      by (simp add: key_prog_def)
    then show ?thesis using True by (simp only: step r if_True)
  next
    case False
    then have a: "?a = k" and r: "?r = []"
      by (auto simp: takeWhile_eq_all_conv dropWhile_eq_Nil_conv)
    have "run key_prog (pos + length k) [] caps = Some (caps[5 := pos + length k, 1 := pos + length k])"
      by (simp add: key_prog_def)
    then show ?thesis using False by (simp only: step a r if_False)
  qed
qed

lemma run_bucket:
  "run (Star (NotChar CHR ''/'') # bucket_prog) pos r caps =
     (let b = takeWhile (\<lambda>x. x \<noteq> CHR ''/'') r; t = dropWhile (\<lambda>x. x \<noteq> CHR ''/'') r
      in if t = [] \<or> CHR 0x0A \<in> set (tl t) then None
         else Some (caps[3 := pos + length b, 4 := Suc (pos + length b),
                         5 := pos + length r, 1 := pos + length r]))"
proof -
  let ?b = "takeWhile (\<lambda>x. x \<noteq> CHR ''/'') r" and ?t = "dropWhile (\<lambda>x. x \<noteq> CHR ''/'') r"
  have len: "length r = length ?b + length ?t"
    by (metis length_append takeWhile_dropWhile_id)
  have "run (Star (NotChar CHR ''/'') # bucket_prog) pos (?b @ ?t) caps
          = run bucket_prog (pos + length ?b) ?t caps"
  proof (rule run_star_greedy)
    show "?t = [] \<or> \<not> cmatch (NotChar CHR ''/'') (hd ?t)"
      using hd_dropWhile [of "\<lambda>x. x \<noteq> CHR ''/''" r] by auto
    show "\<forall>x\<in>set ?b. cmatch (NotChar CHR ''/'') x" by (auto dest: set_takeWhileD)
  qed (simp add: bucket_prog_def)
  then have step: "run (Star (NotChar CHR ''/'') # bucket_prog) pos r caps
          = run bucket_prog (pos + length ?b) ?t caps"
    by simp
  show ?thesis
  proof (cases ?t)
    case Nil
    have "run bucket_prog (pos + length ?b) [] caps = None" by (simp add: bucket_prog_def)
    then have "run (Star (NotChar CHR ''/'') # bucket_prog) pos r caps = None"
      by (simp only: step Nil)
    then show ?thesis by (simp only: Let_def Nil simp_thms if_True)
  next
    case (Cons x k)
    then have x: "x = CHR ''/''"
      using hd_dropWhile [of "\<lambda>x. x \<noteq> CHR ''/''" r] by auto
    have lr: "length r = Suc (length ?b + length k)"
      using len by (simp only: Cons) simp
    have "run bucket_prog (pos + length ?b) (x # k) caps
            = run (Star AnyNoNL # key_prog) (Suc (pos + length ?b)) k
                (caps[3 := pos + length ?b, 4 := Suc (pos + length ?b)])"
      by (simp add: bucket_prog_def x)
    also have "\<dots> = (if CHR 0x0A \<in> set k then None
         else Some (caps[3 := pos + length ?b, 4 := Suc (pos + length ?b),
                         5 := pos + length r, 1 := pos + length r]))"
      by (simp only: run_key lr add_Suc add_Suc_right add.assoc)
    finally have "run (Star (NotChar CHR ''/'') # bucket_prog) pos r caps = (if CHR 0x0A \<in> set k then None
         else Some (caps[3 := pos + length ?b, 4 := Suc (pos + length ?b),
                         5 := pos + length r, 1 := pos + length r]))"
      by (simp only: step Cons)
    then show ?thesis
      by (simp only: Let_def Cons list.sel list.simps simp_thms if_False)
  qed
qed


lemma run_gs:
  "run (One (Lit CHR ''g'') # One (Lit CHR ''s'') # One (Lit CHR '':'') #
        One (Lit CHR ''/'') # One (Lit CHR ''/'') # prog) pos s caps =
     (if prefix ''gs://'' s then run prog (pos + 5) (drop 5 s) caps else None)"
  using run_lits [of "''gs://''" prog pos s caps] by (simp add: eval_nat_numeral)

lemma search_gcs:
  "search (CapOpen 0 # gcsRegexp @ [CapClose 0]) 0 s caps =
     (if prefix ''gs://'' s
      then run (Star (NotChar CHR ''/'') # bucket_prog) 5 (drop 5 s) (caps[0 := 0, 2 := 5])
      else None)"
  unfolding gcs_prog_eq search_anchored0
  by (simp add: run_gs)

lemma substr_parts:
  assumes "s = p @ b @ c # k"
  shows "substr s (length p) (length p + length b) = b"
    and "substr s (Suc (length p + length b)) (length p + length (b @ c # k)) = k"
    and "substr s 0 (length p + length (b @ c # k)) = s"
  by (simp_all add: substr_def assms)

lemma FindStringSubmatch_gcs:
  "FindStringSubmatch gcsRegexp 2 s =
     (if prefix ''gs://'' s
      then (let r = drop 5 s;
                b = takeWhile (\<lambda>x. x \<noteq> CHR ''/'') r;
                t = dropWhile (\<lambda>x. x \<noteq> CHR ''/'') r
            in if t = [] \<or> CHR 0x0A \<in> set (tl t) then None else Some [s, b, tl t])
      else None)"
proof (cases "prefix ''gs://'' s")
  case False
  then show ?thesis
    by (simp add: FindStringSubmatch_def search_gcs)
next
  case True
  define r where "r = drop 5 s"
  from True have s: "s = ''gs://'' @ r"
    by (auto simp: prefix_def r_def)
  let ?b = "takeWhile (\<lambda>x. x \<noteq> CHR ''/'') r" and ?t = "dropWhile (\<lambda>x. x \<noteq> CHR ''/'') r"
  have r: "r = ?b @ ?t" by simp
  show ?thesis
  proof (cases "?t = [] \<or> CHR 0x0A \<in> set (tl ?t)")
    case bad: True
    then show ?thesis
      using True
      by (simp add: FindStringSubmatch_def search_gcs run_bucket Let_def flip: r_def)
  next
    case False
    then obtain k where t: "?t = CHR ''/'' # k"
      using hd_dropWhile [of "\<lambda>x. x \<noteq> CHR ''/''" r] by (cases ?t) auto
    have lr: "length r = Suc (length ?b + length k)"
      using arg_cong [OF r, of length] by (simp only: t length_append) simp
    have rr: "r = ?b @ CHR ''/'' # k"
      using r by (simp only: t)
    have sub: "substr s 5 (5 + length ?b) = ?b"
      "substr s (Suc (5 + length ?b)) (5 + length r) = k"
      "substr s 0 (5 + length r) = s"
      using substr_parts [of s "''gs://''" ?b "CHR ''/''" k] s rr
      by (simp_all add: eval_nat_numeral)
    have sub': "substr s (6 + length ?b) (5 + length r) = k"
      using sub(2) by simp
    have inr: "CHR ''/'' \<in> set r"
      by (subst rr) simp
    from False True show ?thesis
      by (simp add: FindStringSubmatch_def search_gcs run_bucket Let_def t sub sub' inr upt_rec numeral_3_eq_3 numeral_2_eq_2 flip: r_def)
  qed
qed

lemma splitGcsPath_eq:
  "splitGcsPath s =
     (if prefix ''gs://'' s
      then (let r = drop 5 s;
                b = takeWhile (\<lambda>x. x \<noteq> CHR ''/'') r;
                t = dropWhile (\<lambda>x. x \<noteq> CHR ''/'') r
            in if t = [] \<or> CHR 0x0A \<in> set (tl t) then ([], [], Some (NotGcsPath s))
               else (b, tl t, None))
      else ([], [], Some (NotGcsPath s)))"
  by (auto simp: splitGcsPath_def FindStringSubmatch_gcs Let_def)

lemma splitGcsPath_accepts:
  assumes "CHR ''/'' \<notin> set b" and "CHR 0x0A \<notin> set k"
  shows "splitGcsPath (''gs://'' @ b @ ''/'' @ k) = (b, k, None)"
proof -
  have tw: "takeWhile (\<lambda>x. x \<noteq> CHR ''/'') (b @ CHR ''/'' # k) = b"
    using assms(1) by (subst takeWhile_append2) auto
  have dw: "dropWhile (\<lambda>x. x \<noteq> CHR ''/'') (b @ CHR ''/'' # k) = CHR ''/'' # k"
    using assms(1) by (subst dropWhile_append2) auto
  show ?thesis
    using assms(2) by (simp add: splitGcsPath_eq tw dw)
qed

lemma splitGcsPath_remote_shape:
  assumes "splitGcsPath s = (b, k, None)"
  shows "s = ''gs://'' @ b @ ''/'' @ k \<and> CHR ''/'' \<notin> set b \<and> CHR 0x0A \<notin> set k"
proof -
  let ?r = "drop 5 s"
  let ?t = "dropWhile (\<lambda>x. x \<noteq> CHR ''/'') ?r"
  from assms have p: "prefix ''gs://'' s" and t: "?t \<noteq> []" and nl: "CHR 0x0A \<notin> set (tl ?t)"
    and b: "b = takeWhile (\<lambda>x. x \<noteq> CHR ''/'') ?r" and k: "k = tl ?t"
    by (simp_all add: splitGcsPath_eq Let_def split: if_splits)
  from t have "hd ?t = CHR ''/''"
    using hd_dropWhile [of "\<lambda>x. x \<noteq> CHR ''/''" ?r] by simp
  with t k have t': "?t = CHR ''/'' # k"
    by (cases ?t) simp_all
  have "?r = b @ ?t"
    by (simp only: b takeWhile_dropWhile_id)
  moreover from p have "s = ''gs://'' @ ?r"
    by (auto simp: prefix_def)
  ultimately have "s = ''gs://'' @ b @ ''/'' @ k"
    by (simp only: t') simp
  moreover have "CHR ''/'' \<notin> set b"
    by (auto simp: b dest: set_takeWhileD)
  ultimately show ?thesis using nl k by simp
qed

lemma splitGcsPath_local:
  assumes "snd (snd (splitGcsPath s)) \<noteq> None"
  shows "splitGcsPath s = ([], [], Some (NotGcsPath s))"
  using assms by (simp add: splitGcsPath_def split: option.splits)

text \<open>
  Claim C1, as the code has it. A string \<open>gs://b/k\<close> whose bucket \<open>b\<close> has no
  slash and whose key \<open>k\<close> has no line feed is split into that bucket and that key,
  with a nil error (the caller's \<open>isRemote\<close>). A string that is not of the shape
  \<open>gs://b/k\<close> with a slash-free \<open>b\<close>, whatever the key, gets the error value and two
  empty strings, which the caller takes as a local path.
\<close>

theorem splitGcsPath_classifies:
  "(CHR ''/'' \<notin> set b \<and> CHR 0x0A \<notin> set k \<longrightarrow>
      splitGcsPath (''gs://'' @ b @ ''/'' @ k) = (b, k, None)) \<and>
   ((\<forall>b' k'. CHR ''/'' \<in> set b' \<or> s \<noteq> ''gs://'' @ b' @ ''/'' @ k') \<longrightarrow>
      splitGcsPath s = ([], [], Some (NotGcsPath s)))"
proof (intro conjI impI)
  assume "CHR ''/'' \<notin> set b \<and> CHR 0x0A \<notin> set k"
  then show "splitGcsPath (''gs://'' @ b @ ''/'' @ k) = (b, k, None)"
    using splitGcsPath_accepts [of b k] by blast
next
  assume no: "\<forall>b' k'. CHR ''/'' \<in> set b' \<or> s \<noteq> ''gs://'' @ b' @ ''/'' @ k'"
  show "splitGcsPath s = ([], [], Some (NotGcsPath s))"
  proof (rule splitGcsPath_local, rule notI)
    assume "snd (snd (splitGcsPath s)) = None"
    then obtain b' k' where "splitGcsPath s = (b', k', None)"
      by (cases "splitGcsPath s") auto
    from splitGcsPath_remote_shape [OF this] no show False by blast
  qed
qed

theorem splitGcsPath_classifies_witness:
  "(CHR ''/'' \<notin> set ''bucket'' \<and> CHR 0x0A \<notin> set ''dir/file'') \<and>
   splitGcsPath ''gs://bucket/dir/file'' = (''bucket'', ''dir/file'', None) \<and>
   (\<forall>b' k'. CHR ''/'' \<in> set b' \<or> ''dir/file'' \<noteq> ''gs://'' @ b' @ ''/'' @ k') \<and>
   splitGcsPath ''dir/file'' = ([], [], Some (NotGcsPath ''dir/file''))"
  using splitGcsPath_classifies [of "''bucket''" "''dir/file''" "''dir/file''"]
  by simp

text \<open>
  The claim as written lets the key be any remainder. The dot of the pattern does not
  match a line feed, so \<open>gs://b/k\<close> followed by a line feed and \<open>x\<close>, which has the
  shape with bucket \<open>b\<close>, is not split into that bucket and key.
\<close>

theorem splitGcsPath_key_line_feed_counterexample:
  "CHR ''/'' \<notin> set ''b'' \<and>
   splitGcsPath (''gs://'' @ ''b'' @ ''/'' @ [CHR ''k'', CHR 0x0A, CHR ''x''])
     \<noteq> (''b'', [CHR ''k'', CHR 0x0A, CHR ''x''], None)"
  by (simp add: splitGcsPath_eq)

text \<open>
  Claim C5, as the code has it. The bucket of an accepted string is the run of
  characters between \<open>gs://\<close> and the next slash: it has no slash, and it may be empty,
  since the pattern's class is starred.
\<close>

theorem splitGcsPath_bucket_slash_free:
  "splitGcsPath s = (b, k, None) \<Longrightarrow> CHR ''/'' \<notin> set b \<and> s = ''gs://'' @ b @ ''/'' @ k"
  using splitGcsPath_remote_shape by blast

theorem splitGcsPath_bucket_slash_free_witness:
  "splitGcsPath ''gs://bucket/k'' = (''bucket'', ''k'', None) \<and> CHR ''/'' \<notin> set ''bucket'' \<and>
   ''gs://bucket/k'' = ''gs://'' @ ''bucket'' @ ''/'' @ ''k''"
  using splitGcsPath_bucket_slash_free [of "''gs://bucket/k''" "''bucket''" "''k''"]
  by (simp add: splitGcsPath_eq)

text \<open>The string \<open>gs:///k\<close> is accepted, with the empty bucket.\<close>

theorem splitGcsPath_empty_bucket_counterexample:
  "splitGcsPath ''gs:///k'' = ([], ''k'', None)"
  by (simp add: splitGcsPath_eq)


section \<open>Facts about the tree and the operations on it\<close>

subsection \<open>\<open>lookup\<close> and \<open>store\<close>\<close>

lemma lookup_append:
  "lookup t (p @ q) = (case lookup t p of None \<Rightarrow> None | Some n \<Rightarrow> lookup n q)"
  by (induction t p rule: lookup.induct) (auto split: option.splits)

lemma lookup_prefix_None:
  "lookup t p = None \<Longrightarrow> prefix p q \<Longrightarrow> lookup t q = None"
  by (auto simp: prefix_def lookup_append)

lemma lookup_File_below:
  "lookup t p = Some (File c) \<Longrightarrow> strict_prefix p q \<Longrightarrow> lookup t q = None"
proof -
  assume f: "lookup t p = Some (File c)" and sp: "strict_prefix p q"
  from sp obtain x xs where "q = p @ x # xs"
    by (rule strict_prefixE')
  with f show ?thesis by (simp add: lookup_append)
qed

lemma lookup_store_below:
  "store p n t = Some t' \<Longrightarrow> lookup t' (p @ q) = lookup n q"
  by (induction p n t arbitrary: t' rule: store.induct)
     (auto simp: update_conv' split: option.splits)

lemma lookup_store_other:
  "store p n t = Some t' \<Longrightarrow> \<not> prefix p q \<Longrightarrow> \<not> prefix q p \<Longrightarrow> lookup t' q = lookup t q"
proof (induction p n t arbitrary: t' q rule: store.induct)
  case (3 x n r es)
  then show ?case by (cases q) (auto simp: update_conv')
next
  case (4 x y ys n r es)
  then show ?case by (cases q) (auto simp: update_conv' split: option.splits)
qed auto

lemma lookup_store_above:
  "store p n t = Some t' \<Longrightarrow> strict_prefix q p \<Longrightarrow>
     \<exists>r es es'. lookup t q = Some (Dir r es) \<and> lookup t' q = Some (Dir r es')"
proof (induction p n t arbitrary: t' q rule: store.induct)
  case (3 x n r es)
  then show ?case by (cases q) (auto simp: update_conv')
next
  case (4 x y ys n r es)
  then show ?case by (cases q) (auto simp: update_conv' split: option.splits)
qed auto

lemma store_succeeds:
  "p \<noteq> [] \<Longrightarrow> lookup t (butlast p) = Some (Dir r es) \<Longrightarrow> \<exists>t'. store p n t = Some t'"
proof (induction p n t arbitrary: r es rule: store.induct)
  case (4 x y ys n r' es')
  from 4(3) obtain c where c: "map_of es' x = Some c"
    and l: "lookup c (butlast (y # ys)) = Some (Dir r es)"
    by (auto split: option.splits)
  from 4(1) [OF c _ l] obtain t' where "store (y # ys) n c = Some t'"
    by auto
  with c show ?case by simp
qed (auto split: if_splits)

lemma store_parent:
  "store p n t = Some t' \<Longrightarrow> p \<noteq> [] \<and> (\<exists>r es. lookup t (butlast p) = Some (Dir r es))"
  by (induction p n t arbitrary: t' rule: store.induct) (auto split: option.splits)


lemma lookup_above_Dir:
  "lookup t p = Some n \<Longrightarrow> strict_prefix q p \<Longrightarrow> \<exists>r es. lookup t q = Some (Dir r es)"
proof -
  assume l: "lookup t p = Some n" and sp: "strict_prefix q p"
  from sp obtain x xs where p: "p = q @ x # xs"
    by (rule strict_prefixE')
  from l obtain m where m: "lookup t q = Some m" and "lookup m (x # xs) = Some n"
    by (auto simp: p lookup_append split: option.splits)
  then show ?thesis by (cases m) auto
qed

subsection \<open>\<open>kind_at\<close>\<close>

lemma kind_at_Nil_File [simp]: "kind_at (File c) q = (if q = [] then Some (IsFile c) else None)"
  by (cases q) (simp_all add: kind_at_def)

lemma kind_at_empty_Dir [simp]: "kind_at (Dir r []) q = (if q = [] then Some IsDir else None)"
  by (cases q) (simp_all add: kind_at_def)

lemma kind_at_None_iff: "kind_at t p = None \<longleftrightarrow> lookup t p = None"
  by (auto simp: kind_at_def split: option.splits node.splits)

lemma kind_at_IsFile_iff: "kind_at t p = Some (IsFile c) \<longleftrightarrow> lookup t p = Some (File c)"
  by (auto simp: kind_at_def split: option.splits node.splits)

lemma kind_at_IsDir_iff: "kind_at t p = Some IsDir \<longleftrightarrow> (\<exists>r es. lookup t p = Some (Dir r es))"
  by (auto simp: kind_at_def split: option.splits node.splits)

lemma kind_at_prefix_None:
  "kind_at t p = None \<Longrightarrow> prefix p q \<Longrightarrow> kind_at t q = None"
  by (simp add: kind_at_None_iff lookup_prefix_None)

lemma kind_at_File_below:
  "kind_at t p = Some (IsFile c) \<Longrightarrow> strict_prefix p q \<Longrightarrow> kind_at t q = None"
  by (simp add: kind_at_None_iff kind_at_IsFile_iff lookup_File_below)

lemma kind_at_above:
  "kind_at t p = Some k \<Longrightarrow> strict_prefix q p \<Longrightarrow> kind_at t q = Some IsDir"
  using lookup_above_Dir [of t p _ q]
  by (auto simp: kind_at_def split: option.splits node.splits)

lemma kind_at_store:
  assumes "store p n t = Some t'"
  shows "kind_at t' q = (if prefix p q then kind_at n (drop (length p) q) else kind_at t q)"
proof (cases "prefix p q")
  case True
  then obtain z where "q = p @ z" by (auto simp: prefix_def)
  with assms show ?thesis
    by (simp add: kind_at_def lookup_store_below)
next
  case False
  show ?thesis
  proof (cases "prefix q p")
    case True
    with False have "strict_prefix q p" by (auto simp: strict_prefix_def)
    from lookup_store_above [OF assms this] False show ?thesis
      by (auto simp: kind_at_def)
  next
    case nq: False
    from lookup_store_other [OF assms False nq] False show ?thesis
      by (simp add: kind_at_def)
  qed
qed

subsection \<open>Package \<open>os\<close>\<close>

lemma os_Mkdir_effect:
  assumes "os_Mkdir p w = Inr w'"
  shows "kind_at (files w') = (kind_at (files w))(p \<mapsto> IsDir)"
    and "handles w' = handles w" and "log w' = log w"
    and "buckets w' = buckets w" and "credentials w' = credentials w"
proof -
  from assms obtain t where n: "lookup (files w) p = None"
    and t: "store p (Dir True []) (files w) = Some t" and w': "w' = w\<lparr>files := t\<rparr>"
    by (auto simp: os_Mkdir_def split: option.splits)
  show "kind_at (files w') = (kind_at (files w))(p \<mapsto> IsDir)"
  proof
    fix q
    show "kind_at (files w') q = ((kind_at (files w))(p \<mapsto> IsDir)) q"
    proof (cases "prefix p q")
      case True
      with n have "kind_at (files w) q = None"
        by (simp add: kind_at_None_iff lookup_prefix_None)
      with True show ?thesis
        by (auto simp: w' kind_at_store [OF t] prefix_def)
    next
      case False
      then show ?thesis
        by (auto simp: w' kind_at_store [OF t])
    qed
  qed
qed (use assms in \<open>auto simp: os_Mkdir_def split: option.splits\<close>)

lemma os_Mkdir_succeeds:
  assumes "kind_at (files w) p = None" and "p \<noteq> []"
    and "kind_at (files w) (butlast p) = Some IsDir"
  shows "\<exists>w'. os_Mkdir p w = Inr w'"
proof -
  from assms(3) obtain r es where "lookup (files w) (butlast p) = Some (Dir r es)"
    by (auto simp: kind_at_IsDir_iff)
  from store_succeeds [OF assms(2) this] obtain t' where "store p (Dir True []) (files w) = Some t'"
    by blast
  with assms(1) show ?thesis
    by (simp add: os_Mkdir_def kind_at_None_iff)
qed

lemma prefix_butlast_iff:
  "p \<noteq> [] \<Longrightarrow> prefix q p \<longleftrightarrow> q = p \<or> prefix q (butlast p)"
  using prefix_snoc [of q "butlast p" "last p"] by simp

lemma os_MkdirAll_effect:
  "os_MkdirAll p w = Inr w' \<Longrightarrow>
     (\<forall>q. kind_at (files w') q = (if prefix q p then Some IsDir else kind_at (files w) q)) \<and>
     handles w' = handles w \<and> log w' = log w \<and>
     buckets w' = buckets w \<and> credentials w' = credentials w"
proof (induction p w arbitrary: w' rule: os_MkdirAll.induct)
  case (1 p w)
  show ?case
  proof (cases "lookup (files w) p")
    case None
    with "1.prems" have ne: "p \<noteq> []"
      by (auto split: if_splits)
    from "1.prems" None ne obtain w1 where w1: "os_MkdirAll (butlast p) w = Inr w1"
      and mk: "os_Mkdir p w1 = Inr w'"
      by (auto simp: os_MkdirAll.simps [of p w] split: sum.splits)
    note IH = "1.IH" [OF None ne w1]
    note mkE = os_Mkdir_effect [OF mk]
    have "kind_at (files w') q = (if prefix q p then Some IsDir else kind_at (files w) q)" for q
      using IH prefix_butlast_iff [OF ne, of q]
      by (simp add: mkE(1))
    then show ?thesis
      using IH by (simp add: mkE)
  next
    case (Some n)
    with "1.prems" obtain r es where n: "n = Dir r es" and w': "w' = w"
      by (cases n) (auto simp: os_MkdirAll.simps [of p w])
    have "kind_at (files w) q = Some IsDir" if "prefix q p" for q
    proof (cases "q = p")
      case True
      with Some n show ?thesis by (simp add: kind_at_def)
    next
      case False
      with that have "strict_prefix q p" by (simp add: strict_prefix_def)
      from lookup_above_Dir [OF Some this] show ?thesis
        by (auto simp: kind_at_def)
    qed
    then show ?thesis by (simp add: w')
  qed
qed


lemma no_file_on_iff:
  "no_file_on t p \<longleftrightarrow> (\<forall>q c. prefix q p \<longrightarrow> kind_at t q \<noteq> Some (IsFile c))"
  by (auto simp: no_file_on_def in_set_prefixes split: option.splits kind.splits)

lemma os_MkdirAll_succeeds:
  "no_file_on (files w) p \<Longrightarrow> kind_at (files w) [] = Some IsDir \<Longrightarrow> \<exists>w'. os_MkdirAll p w = Inr w'"
proof (induction p w rule: os_MkdirAll.induct)
  case (1 p w)
  show ?case
  proof (cases "lookup (files w) p")
    case None
    with "1.prems"(2) have ne: "p \<noteq> []"
      by (auto simp: kind_at_def)
    have "no_file_on (files w) (butlast p)"
      using "1.prems"(1) prefix_butlast_iff [OF ne] by (auto simp: no_file_on_iff)
    from "1.IH" [OF None ne this "1.prems"(2)] obtain w1 where w1: "os_MkdirAll (butlast p) w = Inr w1"
      by auto
    note e = os_MkdirAll_effect [OF w1]
    have "\<not> prefix p (butlast p)"
    proof
      assume "prefix p (butlast p)"
      then have "length p \<le> length (butlast p)" by (rule prefix_length_le)
      with ne show False by (cases p rule: rev_cases) simp_all
    qed
    with e None have "kind_at (files w1) p = None" "kind_at (files w1) (butlast p) = Some IsDir"
      by (auto simp: kind_at_None_iff)
    from os_Mkdir_succeeds [OF this(1) ne this(2)] obtain w' where "os_Mkdir p w1 = Inr w'"
      by auto
    with None ne w1 show ?thesis
      by (simp add: os_MkdirAll.simps [of p w])
  next
    case (Some n)
    with "1.prems"(1) show ?thesis
      by (cases n) (auto simp: os_MkdirAll.simps [of p w] no_file_on_iff kind_at_def)
  qed
qed

lemma os_OpenFile_effect:
  assumes "os_OpenFile p w = Inr w'"
  shows "kind_at (files w') = (kind_at (files w))(p \<mapsto> IsFile [])"
    and "handles w' = handles w @ [LocalWriter p]" and "log w' = log w"
    and "buckets w' = buckets w" and "credentials w' = credentials w"
proof -
  from assms obtain t where nd: "kind_at (files w) p \<noteq> Some IsDir"
    and t: "store p (File []) (files w) = Some t"
    and w': "w' = w\<lparr>files := t, handles := handles w @ [LocalWriter p]\<rparr>"
    by (auto simp: os_OpenFile_def kind_at_def split: option.splits node.splits)
  show "kind_at (files w') = (kind_at (files w))(p \<mapsto> IsFile [])"
  proof
    fix q
    show "kind_at (files w') q = ((kind_at (files w))(p \<mapsto> IsFile [])) q"
    proof (cases "strict_prefix p q")
      case True
      have "kind_at (files w) q = None"
      proof (cases "kind_at (files w) p")
        case None
        with True show ?thesis by (auto intro: kind_at_prefix_None)
      next
        case (Some k)
        with nd obtain c where "kind_at (files w) p = Some (IsFile c)"
          by (cases k) auto
        from kind_at_File_below [OF this True] show ?thesis .
      qed
      with True show ?thesis
        by (auto simp: w' kind_at_store [OF t] strict_prefix_def prefix_def)
    next
      case False
      then show ?thesis
        by (auto simp: w' kind_at_store [OF t] strict_prefix_def)
    qed
  qed
qed (use assms in \<open>auto simp: os_OpenFile_def split: option.splits node.splits\<close>)

lemma os_OpenFile_succeeds:
  assumes "p \<noteq> []" and "kind_at (files w) (butlast p) = Some IsDir"
    and "kind_at (files w) p \<noteq> Some IsDir"
  shows "\<exists>w'. os_OpenFile p w = Inr w'"
proof -
  from assms(2) obtain r es where "lookup (files w) (butlast p) = Some (Dir r es)"
    by (auto simp: kind_at_IsDir_iff)
  from store_succeeds [OF assms(1) this] obtain t' where "store p (File []) (files w) = Some t'"
    by blast
  with assms(3) show ?thesis
    by (auto simp: os_OpenFile_def kind_at_def split: option.splits node.splits)
qed

lemma file_Read_iff: "file_Read p w = Inr c \<longleftrightarrow> kind_at (files w) p = Some (IsFile c)"
  by (auto simp: file_Read_def kind_at_def split: option.splits node.splits)

lemma file_Write_effect:
  assumes "file_Write p c w = Inr w'"
  shows "kind_at (files w') = (kind_at (files w))(p \<mapsto> IsFile c)"
    and "handles w' = handles w" and "log w' = log w"
    and "buckets w' = buckets w" and "credentials w' = credentials w"
proof -
  from assms obtain t old where f: "kind_at (files w) p = Some (IsFile old)"
    and t: "store p (File c) (files w) = Some t"
    and w': "w' = w\<lparr>files := t\<rparr>"
    by (auto simp: file_Write_def kind_at_def split: option.splits node.splits)
  show "kind_at (files w') = (kind_at (files w))(p \<mapsto> IsFile c)"
  proof
    fix q
    show "kind_at (files w') q = ((kind_at (files w))(p \<mapsto> IsFile c)) q"
    proof (cases "strict_prefix p q")
      case True
      from kind_at_File_below [OF f True] True show ?thesis
        by (auto simp: w' kind_at_store [OF t] strict_prefix_def prefix_def)
    next
      case False
      then show ?thesis
        by (auto simp: w' kind_at_store [OF t] strict_prefix_def)
    qed
  qed
qed (use assms in \<open>auto simp: file_Write_def split: option.splits node.splits\<close>)

lemma file_Write_succeeds:
  assumes "p \<noteq> []" and "kind_at (files w) p = Some (IsFile old)"
  shows "\<exists>w'. file_Write p c w = Inr w'"
proof -
  have "strict_prefix (butlast p) p"
    using assms(1) by (cases p rule: rev_cases) (auto simp: strict_prefix_def)
  from kind_at_above [OF assms(2) this] obtain r es
    where "lookup (files w) (butlast p) = Some (Dir r es)"
    by (auto simp: kind_at_IsDir_iff)
  from store_succeeds [OF assms(1) this] obtain t' where "store p (File c) (files w) = Some t'"
    by blast
  with assms(2) show ?thesis
    by (auto simp: file_Write_def kind_at_IsFile_iff)
qed

subsection \<open>Cleaned paths\<close>

lemma foldl_clean_step_valid:
  "valid_path p \<Longrightarrow> foldl clean_step acc p = acc @ p"
  by (induction p arbitrary: acc) (auto simp: valid_path_def clean_step_def)

lemma filepath_Clean_valid [simp]: "valid_path p \<Longrightarrow> filepath_Clean p = p"
  by (simp add: filepath_Clean_def foldl_clean_step_valid)

lemma valid_path_append [simp]: "valid_path (p @ q) \<longleftrightarrow> valid_path p \<and> valid_path q"
  by (auto simp: valid_path_def)

lemma valid_path_Nil [simp]: "valid_path []"
  by (simp add: valid_path_def)

lemma filepath_Join_valid [simp]:
  "valid_path p \<Longrightarrow> valid_path q \<Longrightarrow> filepath_Join p q = p @ q"
  by (simp add: filepath_Join_def)

lemma filepath_Dir_valid [simp]: "valid_path p \<Longrightarrow> filepath_Dir p = butlast p"
  by (simp add: filepath_Dir_def)

lemma valid_path_butlast: "valid_path p \<Longrightarrow> valid_path (butlast p)"
  by (auto simp: valid_path_def dest: in_set_butlastD)

lemma valid_path_clean_step:
  assumes "valid_path acc"
  shows "valid_path (clean_step acc e)"
proof -
  have "valid_path [e]" if "e \<noteq> []" "e \<noteq> ''.''" "e \<noteq> ''..''"
    using that by (simp add: valid_path_def)
  with assms show ?thesis
    by (simp add: clean_step_def valid_path_butlast)
qed

lemma foldl_clean_step_is_valid:
  "valid_path acc \<Longrightarrow> valid_path (foldl clean_step acc p)"
  by (induction p arbitrary: acc) (simp_all add: valid_path_clean_step)

lemma valid_path_Clean [simp]: "valid_path (filepath_Clean p)"
  by (simp add: filepath_Clean_def foldl_clean_step_is_valid)

lemma valid_path_Join [simp]: "valid_path (filepath_Join p q)"
  by (simp add: filepath_Join_def)

lemma valid_path_parsePath [simp]: "valid_path (parsePath s)"
  by (simp add: parsePath_def)

lemma strip_common_append: "strip_common p (p @ q) = ([], q)"
  by (induction p) auto

lemma filepath_Rel_below:
  "valid_path p \<Longrightarrow> valid_path q \<Longrightarrow> filepath_Rel p (p @ q) = Inr q"
  by (simp add: filepath_Rel_def strip_common_append)

subsection \<open>One local transfer\<close>

lemma copyFileFromLocalToLocal_steps:
  assumes "copyFileFromLocalToLocal s d w = Ok u w'"
  obtains w2 w3 c w5 where
    "lookup (files w) s \<noteq> None"
    "os_MkdirAll (filepath_Dir d) (w\<lparr>handles := handles w @ [LocalReader s]\<rparr>) = Inr w2"
    "os_OpenFile d w2 = Inr w3"
    "file_Read s (log_Printf (Copying (Local s) (Local d)) w3) = Inr c"
    "file_Write d c (log_Printf (Copying (Local s) (Local d)) w3) = Inr w5"
    "w' = w5\<lparr>handles := remove1 (LocalWriter d) (handles w5)\<rparr>"
  using assms
  by (auto simp: copyFileFromLocalToLocal_def os_Open_def io_Copy_def handle_Close_def Let_def log_Fatal_def
      split: option.splits sum.splits)

lemma copyFileFromLocalToLocal_Ok:
  assumes v: "valid_path d" and ok: "copyFileFromLocalToLocal s d w = Ok u w'"
  shows "\<exists>c. kind_at (files w') = kind_at (files w) ++ put_map d c \<and>
             (if s = d then c = [] else kind_at (files w) s = Some (IsFile c))"
    and "log w' = log w @ [Copying (Local s) (Local d)]"
    and "buckets w' = buckets w" and "credentials w' = credentials w"
    and "LocalReader s \<in> set (handles w')"
    and "d \<noteq> []"
proof -
  from ok obtain w2 w3 c w5 where
    mk: "os_MkdirAll (filepath_Dir d) (w\<lparr>handles := handles w @ [LocalReader s]\<rparr>) = Inr w2"
    and op: "os_OpenFile d w2 = Inr w3"
    and rd: "file_Read s (log_Printf (Copying (Local s) (Local d)) w3) = Inr c"
    and wr: "file_Write d c (log_Printf (Copying (Local s) (Local d)) w3) = Inr w5"
    and w': "w' = w5\<lparr>handles := remove1 (LocalWriter d) (handles w5)\<rparr>"
    by (rule copyFileFromLocalToLocal_steps)
  note mkE = os_MkdirAll_effect [OF mk, simplified]
  note opE = os_OpenFile_effect [OF op]
  note wrE = file_Write_effect [OF wr, simplified log_Printf_def, simplified]
  from op have dne: "d \<noteq> []"
    by (auto simp: os_OpenFile_def dest: store_parent split: option.splits node.splits)
  then show "d \<noteq> []" .
  have k3: "kind_at (files w3) q =
      (if q = d then Some (IsFile []) else if prefix q d then Some IsDir else kind_at (files w) q)" for q
    using mkE prefix_butlast_iff [OF dne, of q] v
    by (simp add: opE(1))
  have k5: "kind_at (files w5) q =
      (if q = d then Some (IsFile c) else if prefix q d then Some IsDir else kind_at (files w) q)" for q
    using k3 [of q] by (simp add: wrE(1))
  have "kind_at (files w') = kind_at (files w) ++ put_map d c"
    by (rule ext) (simp add: w' k5 map_add_def put_map_def)
  moreover from rd have "kind_at (files w3) s = Some (IsFile c)"
    by (simp add: file_Read_iff log_Printf_def)
  then have "if s = d then c = [] else kind_at (files w) s = Some (IsFile c)"
    by (auto simp: k3 split: if_splits)
  ultimately show "\<exists>c. kind_at (files w') = kind_at (files w) ++ put_map d c \<and>
             (if s = d then c = [] else kind_at (files w) s = Some (IsFile c))"
    by blast
  show "log w' = log w @ [Copying (Local s) (Local d)]"
    using mkE by (simp add: w' wrE opE log_Printf_def)
  show "buckets w' = buckets w" "credentials w' = credentials w"
    using mkE by (simp_all add: w' wrE opE)
  show "LocalReader s \<in> set (handles w')"
    using mkE by (simp add: w' wrE opE)
qed

lemma copyFileFromLocalToLocal_succeeds:
  assumes v: "valid_path d" and dne: "d \<noteq> []"
    and src: "kind_at (files w) s = Some (IsFile c)"
    and nf: "no_file_on (files w) (butlast d)"
    and nd: "kind_at (files w) d \<noteq> Some IsDir"
    and root: "kind_at (files w) [] = Some IsDir"
  shows "\<exists>w'. copyFileFromLocalToLocal s d w = Ok () w'"
proof -
  let ?w1 = "w\<lparr>handles := handles w @ [LocalReader s]\<rparr>"
  from src have o: "os_Open s w = Inr ?w1"
    by (auto simp: os_Open_def kind_at_def split: option.splits)
  from os_MkdirAll_succeeds [of ?w1 "butlast d"] nf root
  obtain w2 where mk: "os_MkdirAll (butlast d) ?w1 = Inr w2"
    by auto
  note mkE = os_MkdirAll_effect [OF mk, simplified]
  have "\<not> prefix d (butlast d)"
  proof
    assume "prefix d (butlast d)"
    then have "length d \<le> length (butlast d)" by (rule prefix_length_le)
    with dne show False by (cases d rule: rev_cases) simp_all
  qed
  with mkE nd have "kind_at (files w2) (butlast d) = Some IsDir" "kind_at (files w2) d \<noteq> Some IsDir"
    by auto
  from os_OpenFile_succeeds [OF dne this] obtain w3 where op: "os_OpenFile d w2 = Inr w3"
    by auto
  note opE = os_OpenFile_effect [OF op]
  let ?w4 = "log_Printf (Copying (Local s) (Local d)) w3"
  have "\<not> prefix s (butlast d)"
    using nf src by (auto simp: no_file_on_iff)
  then have rd: "file_Read s ?w4 = Inr (if s = d then [] else c)"
    using mkE src by (simp add: file_Read_iff log_Printf_def opE(1))
  have "kind_at (files ?w4) d = Some (IsFile [])"
    by (simp add: log_Printf_def opE(1))
  from file_Write_succeeds [OF dne this]
  obtain w5 where wr: "file_Write d (if s = d then [] else c) ?w4 = Inr w5"
    by auto
  show ?thesis
    using o mk op rd wr v
    by (simp add: copyFileFromLocalToLocal_def io_Copy_def handle_Close_def Let_def)
qed

subsection \<open>What a local transfer leaves alone\<close>

lemma store_frame:
  assumes "store p n t = Some t'" and "lookup t x = Some m" and "\<not> prefix x p"
    and "\<not> is_dir (the (lookup t p)) \<or> lookup t p = None"
  shows "lookup t' x = Some m"
proof -
  have "\<not> prefix p x"
  proof
    assume px: "prefix p x"
    with assms(2) have "lookup t p \<noteq> None"
      using lookup_prefix_None by fastforce
    with assms(4) obtain c where c: "lookup t p = Some (File c)"
      by (cases "the (lookup t p)") auto
    from assms(3) px have "strict_prefix p x"
      by (auto simp: strict_prefix_def)
    from lookup_File_below [OF c this] assms(2) show False by simp
  qed
  from lookup_store_other [OF assms(1) this assms(3)] assms(2) show ?thesis by simp
qed

lemma os_Mkdir_frame:
  "os_Mkdir p w = Inr w' \<Longrightarrow> lookup (files w) x = Some n \<Longrightarrow> \<not> prefix x p \<Longrightarrow>
     lookup (files w') x = Some n"
  by (auto simp: os_Mkdir_def split: option.splits intro: store_frame)

lemma os_MkdirAll_frame:
  "os_MkdirAll p w = Inr w' \<Longrightarrow> lookup (files w) x = Some n \<Longrightarrow> \<not> prefix x p \<Longrightarrow>
     lookup (files w') x = Some n"
proof (induction p w arbitrary: w' rule: os_MkdirAll.induct)
  case (1 p w)
  show ?case
  proof (cases "lookup (files w) p")
    case None
    with "1.prems" have ne: "p \<noteq> []"
      by (auto split: if_splits)
    from "1.prems" None ne obtain w1 where w1: "os_MkdirAll (butlast p) w = Inr w1"
      and mk: "os_Mkdir p w1 = Inr w'"
      by (auto simp: os_MkdirAll.simps [of p w] split: sum.splits)
    have "\<not> prefix x (butlast p)"
      using "1.prems"(3) prefix_butlast_iff [OF ne, of x] by simp
    from "1.IH" [OF None ne w1 "1.prems"(2) this] have "lookup (files w1) x = Some n" .
    from os_Mkdir_frame [OF mk this "1.prems"(3)] show ?thesis .
  next
    case (Some m)
    with "1.prems" show ?thesis
      by (cases m) (auto simp: os_MkdirAll.simps [of p w])
  qed
qed

lemma os_OpenFile_frame:
  "os_OpenFile p w = Inr w' \<Longrightarrow> lookup (files w) x = Some n \<Longrightarrow> \<not> prefix x p \<Longrightarrow>
     lookup (files w') x = Some n"
  by (auto simp: os_OpenFile_def split: option.splits node.splits intro: store_frame)

lemma file_Write_frame:
  "file_Write p c w = Inr w' \<Longrightarrow> lookup (files w) x = Some n \<Longrightarrow> \<not> prefix x p \<Longrightarrow>
     lookup (files w') x = Some n"
  by (auto simp: file_Write_def split: option.splits node.splits intro: store_frame)

lemma copyFileFromLocalToLocal_frame:
  assumes v: "valid_path d" and x: "lookup (files w) x = Some n" and np: "\<not> prefix x d"
  shows "lookup (files (final (copyFileFromLocalToLocal s d w))) x = Some n"
proof -
  have nb: "\<not> prefix x (butlast d)"
    using np by (metis prefix_order.trans prefixeq_butlast)
  let ?w1 = "w\<lparr>handles := handles w @ [LocalReader s]\<rparr>"
  have x1: "lookup (files ?w1) x = Some n" using x by simp
  show ?thesis
  proof (cases "os_Open s w")
    case (Inl e)
    then show ?thesis using x by (simp add: copyFileFromLocalToLocal_def log_Fatal_def log_Printf_def)
  next
    case o: (Inr w1)
    then have w1: "w1 = ?w1" by (auto simp: os_Open_def split: option.splits)
    show ?thesis
    proof (cases "os_MkdirAll (butlast d) ?w1")
      case (Inl e)
      then show ?thesis using x o v by (simp add: copyFileFromLocalToLocal_def log_Fatal_def log_Printf_def w1)
    next
      case mk: (Inr w2)
      note x2 = os_MkdirAll_frame [OF mk x1 nb]
      show ?thesis
      proof (cases "os_OpenFile d w2")
        case (Inl e)
        then show ?thesis using x2 o mk v by (simp add: copyFileFromLocalToLocal_def log_Fatal_def log_Printf_def w1)
      next
        case op: (Inr w3)
        note x3 = os_OpenFile_frame [OF op x2 np]
        let ?w4 = "log_Printf (Copying (Local s) (Local d)) w3"
        have x4: "lookup (files ?w4) x = Some n" using x3 by (simp add: log_Printf_def)
        show ?thesis
        proof (cases "io_Copy d s ?w4")
          case (Inl e)
          then show ?thesis using x3 o mk op v
            by (simp add: copyFileFromLocalToLocal_def log_Fatal_def log_Printf_def w1 Let_def)
        next
          case cp: (Inr w5)
          then obtain c where "file_Write d c ?w4 = Inr w5"
            by (auto simp: io_Copy_def split: sum.splits)
          note x5 = file_Write_frame [OF this x4 np]
          then show ?thesis using o mk op cp v
            by (simp add: copyFileFromLocalToLocal_def handle_Close_def w1 Let_def)
        qed
      qed
    qed
  qed
qed

subsection \<open>The files of a tree\<close>



lemma snd_in_snds: "snd e \<in> Basic_BNFs.snds e"
  by (cases e) simp

lemma leaves_under_entries:
  "set (concat (map (\<lambda>e. map ((#) (fst e)) (leaves (snd e))) xs)) =
     {p. \<exists>e\<in>set xs. \<exists>q\<in>set (leaves (snd e)). p = fst e # q}"
  by auto

lemma leaves_iff:
  "wf_node D \<Longrightarrow> p \<in> set (leaves D) \<longleftrightarrow> (\<exists>c. lookup D p = Some (File c))"
proof (induction D arbitrary: p)
  case (File c)
  show ?case by (cases p) auto
next
  case (Dir r es)
  from Dir.prems have d: "distinct (map fst es)" and wf: "\<And>e. e \<in> set es \<Longrightarrow> wf_node (snd e)"
    by auto
  have IH: "q \<in> set (leaves (snd e)) \<longleftrightarrow> (\<exists>c. lookup (snd e) q = Some (File c))"
    if "e \<in> set es" for e q
    using Dir.IH [OF that snd_in_snds wf [OF that]] .
  show ?case
  proof (cases p)
    case Nil
    then show ?thesis by auto
  next
    case (Cons x q)
    have "p \<in> set (leaves (Dir r es)) \<longleftrightarrow> (\<exists>e\<in>set es. fst e = x \<and> q \<in> set (leaves (snd e)))"
      by (auto simp: Cons)
    also have "\<dots> \<longleftrightarrow> (\<exists>e\<in>set es. fst e = x \<and> (\<exists>c. lookup (snd e) q = Some (File c)))"
      using IH by blast
    also have "\<dots> \<longleftrightarrow> (\<exists>n. map_of es x = Some n \<and> (\<exists>c. lookup n q = Some (File c)))"
      using d by (force simp: map_of_eq_Some_iff)
    also have "\<dots> \<longleftrightarrow> (\<exists>c. lookup (Dir r es) p = Some (File c))"
      by (auto simp: Cons split: option.splits)
    finally show ?thesis .
  qed
qed



lemma valid_leaves: "wf_node D \<Longrightarrow> p \<in> set (leaves D) \<Longrightarrow> valid_path p"
proof (induction D arbitrary: p)
  case (File c)
  then show ?case by simp
next
  case (Dir r es)
  from Dir.prems(2) obtain e q where e: "e \<in> set es" and q: "q \<in> set (leaves (snd e))"
    and p: "p = fst e # q"
    by auto
  from Dir.prems(1) e have "wf_node (snd e)" "valid_path [fst e]" by auto
  with Dir.IH [OF e snd_in_snds this(1) q] show ?case
    by (simp add: p valid_path_def)
qed


subsection \<open>The walk as a list of transfers\<close>

lemma walk_visits_append:
  "walk_visits fn (xs @ ys) w =
     (case walk_visits fn xs w of
        Ok None w' \<Rightarrow> walk_visits fn ys w'
      | Ok (Some e) w' \<Rightarrow> Ok (Some e) w'
      | Exit n w' \<Rightarrow> Exit n w')"
  by (induction xs arbitrary: w) (auto split: outcome.splits option.splits)

lemma copy_rels_append:
  "copy_rels src dst (xs @ ys) w =
     (case copy_rels src dst xs w of
        Ok r w' \<Rightarrow> copy_rels src dst ys w'
      | Exit n w' \<Rightarrow> Exit n w')"
  by (induction xs arbitrary: w) (auto split: outcome.splits)

lemma copy_rels_Ok_None: "copy_rels src dst rs w = Ok r w' \<Longrightarrow> r = None"
  by (induction rs arbitrary: w) (auto split: outcome.splits)

lemma copyFromLocalToLocal_fn_dir:
  "valid_path src \<Longrightarrow> valid_path q \<Longrightarrow>
     copyFromLocalToLocal_fn src dst (src @ q, True, None) w = Ok None w"
  by (simp add: copyFromLocalToLocal_fn_def filepath_Rel_below)

lemma copyFromLocalToLocal_fn_file:
  "valid_path src \<Longrightarrow> valid_path dst \<Longrightarrow> valid_path q \<Longrightarrow> q \<noteq> [] \<Longrightarrow>
     copyFromLocalToLocal_fn src dst (src @ q, False, None) w = copy_rels src dst [q] w"
  by (simp add: copyFromLocalToLocal_fn_def filepath_Rel_below split: outcome.splits)

lemma walk_copy_rels:
  assumes vs: "valid_path src" and vd: "valid_path dst"
  shows "wf_node D \<Longrightarrow> listable D \<Longrightarrow> valid_path q \<Longrightarrow> q \<noteq> [] \<or> is_dir D \<Longrightarrow>
     walk_visits (copyFromLocalToLocal_fn src dst) (walk (src @ q) D) w =
       copy_rels src dst (map ((@) q) (leaves D)) w"
proof (induction D arbitrary: q w)
  case (File c)
  then show ?case
    using vs vd by (simp add: copyFromLocalToLocal_fn_file split: outcome.splits)
next
  case (Dir r es)
  let ?fn = "copyFromLocalToLocal_fn src dst"
  have IH: "walk_visits ?fn (walk (src @ q @ [fst e]) (snd e)) w' =
      copy_rels src dst (map (\<lambda>a. q @ fst e # a) (leaves (snd e))) w'"
    if "e \<in> set es" for e w'
  proof -
    from Dir.prems that have "wf_node (snd e)" "listable (snd e)" "valid_path (q @ [fst e])"
      by auto
    from Dir.IH [OF that snd_in_snds this, of w'] show ?thesis by simp
  qed
  have names: "filepath_Join (src @ q) [fst e] = src @ q @ [fst e]" if "e \<in> set es" for e
    using that Dir.prems vs by auto
  have inner: "set xs \<subseteq> set es \<Longrightarrow>
      walk_visits ?fn (concat (map (\<lambda>e. walk (filepath_Join (src @ q) [fst e]) (snd e)) xs)) w' =
      copy_rels src dst (map ((@) q) (concat (map (\<lambda>e. map ((#) (fst e)) (leaves (snd e))) xs))) w'"
    for xs w'
  proof (induction xs arbitrary: w')
    case Nil
    show ?case by simp
  next
    case (Cons e xs)
    then have e: "e \<in> set es" and xs: "set xs \<subseteq> set es" by auto
    have m: "map ((@) q) (map ((#) (fst e)) (leaves (snd e))) = map (\<lambda>a. q @ fst e # a) (leaves (snd e))"
      by simp
    show ?case
      using Cons.IH [OF xs] IH [OF e]
      by (auto simp: walk_visits_append copy_rels_append names [OF e] comp_def
          split: outcome.splits option.splits dest: copy_rels_Ok_None)
  qed
  from Dir.prems have r by simp
  then show ?case
    using inner [of "sort_key fst es" w] vs Dir.prems(3)
    by (simp add: copyFromLocalToLocal_fn_dir)
qed

subsection \<open>A list of transfers between two trees apart\<close>

lemma apart_append:
  assumes "\<not> prefix src dst" and "\<not> prefix dst src"
  shows "\<not> prefix (src @ a) (dst @ b)"
proof
  assume "prefix (src @ a) (dst @ b)"
  then have "prefix src (dst @ b)"
    using append_prefixD by blast
  moreover have "prefix dst (dst @ b)" by simp
  ultimately show False
    using assms prefix_same_cases by blast
qed

lemma put_map_apart:
  assumes "\<not> prefix src dst" and "\<not> prefix dst src"
  shows "put_map (dst @ b) c (src @ a) = None"
  using apart_append [OF assms, of a b]
  by (auto simp: put_map_def)







section \<open>Copying a local directory tree\<close>




section \<open>The dispatch in \<open>main\<close>\<close>




lemma splitGcsPath_no_slash:
  assumes "CHR ''/'' \<notin> set b"
  shows "splitGcsPath (''gs://'' @ b) = ([], [], Some (NotGcsPath (''gs://'' @ b)))"
proof -
  have "dropWhile (\<lambda>x. x \<noteq> CHR ''/'') b = []"
    using assms by (auto simp: dropWhile_eq_Nil_conv)
  then show ?thesis
    by (simp add: splitGcsPath_eq)
qed


text \<open>
  Claim C9. A string \<open>gs://b\<close> whose \<open>b\<close> has no slash is not accepted by the
  pattern. As the first argument it is handed, as a local path, to the routines that
  copy from local files; as the second argument, to the routines that copy to local
  files.
\<close>

theorem bucket_without_slash_is_local:
  assumes "CHR ''/'' \<notin> set b"
  shows "splitGcsPath (''gs://'' @ b) = ([], [], Some (NotGcsPath (''gs://'' @ b))) \<and>
     main prog [''gs://'' @ b, to] w =
       (case (case splitGcsPath to of
                (toBkt, toObj, None) \<Rightarrow>
                  copyFromLocalToGcs (parsePath (''gs://'' @ b)) toBkt toObj
                    (log_Printf (To to) (log_Printf (From (''gs://'' @ b)) w))
              | (toBkt, toObj, Some e) \<Rightarrow>
                  copyFromLocalToLocal (parsePath (''gs://'' @ b)) (parsePath to)
                    (log_Printf (To to) (log_Printf (From (''gs://'' @ b)) w))) of
          Ok u w' \<Rightarrow> Ok () (log_Printf Finished w')
        | Exit n w' \<Rightarrow> Exit n w') \<and>
     main prog [from, ''gs://'' @ b] w =
       (case (case splitGcsPath from of
                (fromBkt, fromObj, None) \<Rightarrow>
                  (case copyFromGcsToLocal fromBkt fromObj (parsePath (''gs://'' @ b))
                          (log_Printf (To (''gs://'' @ b)) (log_Printf (From from) w)) of
                     Ok r w' \<Rightarrow> Ok () w' | Exit n w' \<Rightarrow> Exit n w')
              | (fromBkt, fromObj, Some e) \<Rightarrow>
                  copyFromLocalToLocal (parsePath from) (parsePath (''gs://'' @ b))
                    (log_Printf (To (''gs://'' @ b)) (log_Printf (From from) w))) of
          Ok u w' \<Rightarrow> Ok () (log_Printf Finished w')
        | Exit n w' \<Rightarrow> Exit n w')"
proof -
  note s = splitGcsPath_no_slash [OF assms]
  have a: "main prog [''gs://'' @ b, to] w = (case (case splitGcsPath to of
                (toBkt, toObj, None) \<Rightarrow>
                  copyFromLocalToGcs (parsePath (''gs://'' @ b)) toBkt toObj
                    (log_Printf (To to) (log_Printf (From (''gs://'' @ b)) w))
              | (toBkt, toObj, Some e) \<Rightarrow>
                  copyFromLocalToLocal (parsePath (''gs://'' @ b)) (parsePath to)
                    (log_Printf (To to) (log_Printf (From (''gs://'' @ b)) w))) of
          Ok u w' \<Rightarrow> Ok () (log_Printf Finished w')
        | Exit n w' \<Rightarrow> Exit n w')"
    unfolding main_def
    by (simp only: s Let_def nth_Cons_0 nth_Cons_Suc One_nat_def list.size prod.case)
       (simp split: prod.splits option.splits)
  have b: "main prog [from, ''gs://'' @ b] w = (case (case splitGcsPath from of
                (fromBkt, fromObj, None) \<Rightarrow>
                  (case copyFromGcsToLocal fromBkt fromObj (parsePath (''gs://'' @ b))
                          (log_Printf (To (''gs://'' @ b)) (log_Printf (From from) w)) of
                     Ok r w' \<Rightarrow> Ok () w' | Exit n w' \<Rightarrow> Exit n w')
              | (fromBkt, fromObj, Some e) \<Rightarrow>
                  copyFromLocalToLocal (parsePath from) (parsePath (''gs://'' @ b))
                    (log_Printf (To (''gs://'' @ b)) (log_Printf (From from) w))) of
          Ok u w' \<Rightarrow> Ok () (log_Printf Finished w')
        | Exit n w' \<Rightarrow> Exit n w')"
    unfolding main_def
    by (simp only: s Let_def nth_Cons_0 nth_Cons_Suc One_nat_def list.size prod.case)
       (simp split: prod.splits option.splits)
  from s a b show ?thesis by blast
qed

theorem bucket_without_slash_is_local_witness:
  "CHR ''/'' \<notin> set ''mybucket'' \<and>
   splitGcsPath (''gs://'' @ ''mybucket'') = ([], [], Some (NotGcsPath (''gs://'' @ ''mybucket''))) \<and>
   main ''gcs_copy'' [''gs://'' @ ''mybucket'', ''out''] demo_world =
     Exit 1 (demo_world\<lparr>log := [From ''gs://mybucket'', To ''out'', Failed (ENOENT [''gs:'', ''mybucket''])]\<rparr>)"
proof -
  have h: "CHR ''/'' \<notin> set ''mybucket''" by simp
  have o: "splitGcsPath ''out'' = ([], [], Some (NotGcsPath ''out''))"
    by (simp add: splitGcsPath_eq)
  have p: "parsePath ''gs://mybucket'' = [''gs:'', ''mybucket'']"
    by (simp add: parsePath_def filepath_Clean_def clean_step_def)
  have "copyFromLocalToLocal [''gs:'', ''mybucket''] (parsePath ''out'')
      (log_Printf (To ''out'') (log_Printf (From ''gs://mybucket'') demo_world)) =
      Exit 1 (demo_world\<lparr>log := [From ''gs://mybucket'', To ''out'', Failed (ENOENT [''gs:'', ''mybucket''])]\<rparr>)"
    by (simp add: copyFromLocalToLocal_def os_Stat_def log_Printf_def log_Fatal_def demo_world_def)
  with bucket_without_slash_is_local [OF h, of "''gcs_copy''" "''out''" demo_world] h o p
  show ?thesis by simp
qed

section \<open>The handles of a local transfer\<close>

lemma mkdirAll_root_demo:
  "os_MkdirAll [] w = (case files w of Dir r es \<Rightarrow> Inr w | File c \<Rightarrow> Inl (ENOTDIR []))"
  by (simp add: os_MkdirAll.simps [of "[]" w] split: node.splits)


text \<open>
  Claim C6 says that both handles are closed after the copy. The routine closes the
  destination only: copying the file \<open>f\<close> to \<open>g\<close> returns with the reader of \<open>f\<close>
  still among the open handles.
\<close>

theorem copyFileFromLocalToLocal_leaves_source_open:
  "copyFileFromLocalToLocal [''f''] [''g''] demo_world =
     Ok () (demo_world
       \<lparr>files := Dir True
          [(''a'', Dir True
             [(''sub'', Dir True [(''2.txt'', File ''two'')]),
              (''1.txt'', File ''one''),
              (''empty'', Dir True [])]),
           (''f'', File ''hello''),
           (''g'', File ''hello'')],
        handles := [LocalReader [''f'']],
        log := [Copying (Local [''f'']) (Local [''g''])]\<rparr>)"
  by (simp add: copyFileFromLocalToLocal_def os_Open_def os_OpenFile_def io_Copy_def
      file_Read_def file_Write_def handle_Close_def log_Printf_def filepath_Dir_def
      filepath_Clean_def clean_step_def mkdirAll_root_demo demo_world_def)


section \<open>An error handed to the function of a walk\<close>



lemma walk_visits_never_errs:
  "walk_visits (copyFromLocalToLocal_fn src dst) vs w \<noteq> Ok (Some e) w'"
  "walk_visits (copyFromLocalToGcs_fn src db dp) vs w \<noteq> Ok (Some e) w'"
proof -
  have a: "copyFromLocalToLocal_fn src dst v w \<noteq> Ok (Some e) w'" for v w
    by (cases v) (auto simp: copyFromLocalToLocal_fn_def log_Fatal_def
        split: option.splits sum.splits outcome.splits)
  have b: "copyFromLocalToGcs_fn src db dp v w \<noteq> Ok (Some e) w'" for v w
    by (cases v) (auto simp: copyFromLocalToGcs_fn_def log_Fatal_def
        split: option.splits sum.splits outcome.splits)
  show "walk_visits (copyFromLocalToLocal_fn src dst) vs w \<noteq> Ok (Some e) w'"
    using a by (induction vs arbitrary: w) (auto split: outcome.splits option.splits)
  show "walk_visits (copyFromLocalToGcs_fn src db dp) vs w \<noteq> Ok (Some e) w'"
    using b by (induction vs arbitrary: w) (auto split: outcome.splits option.splits)
qed

lemma walk_visits_error:
  assumes "\<And>w. fn (p, d, Some e) w = Exit 1 (log_Printf (Failed e) w)"
  shows "walk_visits fn (pre @ (p, d, Some e) # post) w =
     (case walk_visits fn pre w of
        Ok None w1 \<Rightarrow> Exit 1 (log_Printf (Failed e) w1)
      | Ok (Some e') w1 \<Rightarrow> Ok (Some e') w1
      | Exit n w1 \<Rightarrow> Exit n w1)"
  by (induction pre arbitrary: w) (auto simp: assms split: outcome.splits option.splits)


text \<open>
  Claim C4, as the code has it. The function that either tree copy passes to the walk
  answers an error it is handed with \<^verbatim>\<open>log.Fatal\<close>: the process exits with
  status 1 after the message, and the entries after it are not visited. The function
  never returns an error, so the walk returns none and the branch that prints the
  walk's error and goes on is not taken.
\<close>

theorem walk_error_is_fatal:
  "copyFromLocalToLocal_fn src dst (p, d, Some e) w = Exit 1 (log_Printf (Failed e) w) \<and>
   copyFromLocalToGcs_fn src db dp (p, d, Some e) w = Exit 1 (log_Printf (Failed e) w) \<and>
   walk_visits (copyFromLocalToLocal_fn src dst) (pre @ (p, d, Some e) # post) w =
     (case walk_visits (copyFromLocalToLocal_fn src dst) pre w of
        Ok r w1 \<Rightarrow> Exit 1 (log_Printf (Failed e) w1)
      | Exit n w1 \<Rightarrow> Exit n w1) \<and>
   walk_visits (copyFromLocalToGcs_fn src db dp) (pre @ (p, d, Some e) # post) w =
     (case walk_visits (copyFromLocalToGcs_fn src db dp) pre w of
        Ok r w1 \<Rightarrow> Exit 1 (log_Printf (Failed e) w1)
      | Exit n w1 \<Rightarrow> Exit n w1) \<and>
   walk_visits (copyFromLocalToLocal_fn src dst) vs w \<noteq> Ok (Some e') w' \<and>
   walk_visits (copyFromLocalToGcs_fn src db dp) vs w \<noteq> Ok (Some e') w'"
proof -
  have a: "copyFromLocalToLocal_fn src dst (p, d, Some e) w = Exit 1 (log_Printf (Failed e) w)" for w
    by (simp add: copyFromLocalToLocal_fn_def log_Fatal_def)
  have b: "copyFromLocalToGcs_fn src db dp (p, d, Some e) w = Exit 1 (log_Printf (Failed e) w)" for w
    by (simp add: copyFromLocalToGcs_fn_def log_Fatal_def)
  have c: "walk_visits (copyFromLocalToLocal_fn src dst) (pre @ (p, d, Some e) # post) w =
     (case walk_visits (copyFromLocalToLocal_fn src dst) pre w of
        Ok r w1 \<Rightarrow> Exit 1 (log_Printf (Failed e) w1)
      | Exit n w1 \<Rightarrow> Exit n w1)"
    using walk_visits_never_errs(1) [of src dst pre w]
    by (simp add: walk_visits_error [of "copyFromLocalToLocal_fn src dst", OF a]
        split: outcome.splits option.splits)
  have d: "walk_visits (copyFromLocalToGcs_fn src db dp) (pre @ (p, d, Some e) # post) w =
     (case walk_visits (copyFromLocalToGcs_fn src db dp) pre w of
        Ok r w1 \<Rightarrow> Exit 1 (log_Printf (Failed e) w1)
      | Exit n w1 \<Rightarrow> Exit n w1)"
    using walk_visits_never_errs(2) [of src db dp pre w]
    by (simp add: walk_visits_error [of "copyFromLocalToGcs_fn src db dp", OF b]
        split: outcome.splits option.splits)
  from a b c d walk_visits_never_errs show ?thesis by blast
qed


theorem walk_error_is_fatal_witness:
  "copyFromLocalToLocal_fn [''a''] [''out''] ([''a'', ''locked''], True, Some (EACCES [''a'', ''locked''])) locked_world
     = Exit 1 (log_Printf (Failed (EACCES [''a'', ''locked''])) locked_world) \<and>
   walk_visits (copyFromLocalToLocal_fn [''a''] [''out''])
     ([([''a''], True, None)] @ ([''a'', ''locked''], True, Some (EACCES [''a'', ''locked''])) #
        [([''a'', ''z.txt''], False, None)]) locked_world =
     (case walk_visits (copyFromLocalToLocal_fn [''a''] [''out'']) [([''a''], True, None)] locked_world of
        Ok r w1 \<Rightarrow> Exit 1 (log_Printf (Failed (EACCES [''a'', ''locked''])) w1)
      | Exit n w1 \<Rightarrow> Exit n w1)"
  using walk_error_is_fatal [where src = "[''a'']" and dst = "[''out'']"
      and p = "[''a'', ''locked'']" and d = True and e = "EACCES [''a'', ''locked'']"
      and w = locked_world and pre = "[([''a''], True, None)]"
      and post = "[([''a'', ''z.txt''], False, None)]"]
  by blast

text \<open>
  The claim as written has the error logged and the walk go on. In a tree where a
  directory that cannot be listed comes before a file, the copy exits with status 1 at
  the directory and the file is not copied.
\<close>

theorem walk_error_counterexample:
  "copyFromLocalToLocal [''a''] [''out''] locked_world =
     Exit 1 (locked_world\<lparr>log := [Failed (EACCES [''a'', ''locked''])]\<rparr>)"
  by (simp add: copyFromLocalToLocal_def os_Stat_def filepath_Walk_def
      copyFromLocalToLocal_fn_def filepath_Rel_def filepath_Clean_def clean_step_def
      filepath_Join_def log_Fatal_def log_Printf_def locked_world_def)

section \<open>The transfers of a copy from a bucket\<close>

lemma transfers_append: "transfers (xs @ ys) = transfers xs @ transfers ys"
  by (induction xs rule: transfers.induct) simp_all

lemma transfers_snoc_Failed [simp]: "transfers (xs @ [Failed e]) = transfers xs"
  by (simp add: transfers_append)

lemma transfers_snoc_Copying [simp]: "transfers (xs @ [Copying s d]) = transfers xs @ [(s, d)]"
  by (simp add: transfers_append)






lemma listing_prefix:
  "\<forall>n\<in>set (sort (filter (prefix sp) (map fst objs))). prefix sp n"
  by simp

lemma gcs_Objects_handles [simp]:
  "gcs_Objects sb sp (w\<lparr>handles := h\<rparr>) = gcs_Objects sb sp w"
  by (simp add: gcs_Objects_def)

lemma gcs_Objects_prefix:
  "gcs_Objects sb sp w = Inr names \<Longrightarrow> \<forall>n\<in>set names. prefix sp n"
  by (auto simp: gcs_Objects_def split: option.splits)



section \<open>What a copy leaves of its source\<close>


subsection \<open>Local files to a bucket: the files stay\<close>

lemma copyFileFromLocalToGcs_files:
  "files (final (copyFileFromLocalToGcs s db dk w)) = files w"
  by (auto simp: copyFileFromLocalToGcs_def storage_NewClient_def os_Open_def gcs_NewWriter_def
      gcs_Writer_Close_def Let_def log_Fatal_def log_Printf_def
      split: sum.splits option.splits if_splits)

lemma final_case_outcome [simp]:
  "final (case x of Ok u w' \<Rightarrow> Ok r w' | Exit n w' \<Rightarrow> Exit n w') = final x"
  by (cases x) simp_all

lemma copyFromLocalToGcs_fn_files:
  "files (final (copyFromLocalToGcs_fn src db dp v w)) = files w"
  by (cases v)
     (simp add: copyFromLocalToGcs_fn_def copyFileFromLocalToGcs_files log_Fatal_def log_Printf_def
        split: option.splits sum.splits)

lemma walk_visits_files:
  assumes "\<And>v w. files (final (fn v w)) = files w"
  shows "files (final (walk_visits fn vs w)) = files w"
proof (induction vs arbitrary: w)
  case Nil
  show ?case by simp
next
  case (Cons v vs)
  show ?case
    using assms [of v w] Cons.IH
    by (cases "fn v w") (auto split: option.splits)
qed

lemma copyFromLocalToGcs_files:
  "files (final (copyFromLocalToGcs src db dp w)) = files w"
proof -
  have fn: "files (final (copyFromLocalToGcs_fn src db dp v w')) = files w'" for v w'
    by (rule copyFromLocalToGcs_fn_files)
  have "files (final (filepath_Walk src (copyFromLocalToGcs_fn src db dp) w)) = files w"
    using walk_visits_files [of "copyFromLocalToGcs_fn src db dp", OF fn] fn
    by (simp add: filepath_Walk_def split: option.splits)
  then show ?thesis
    using copyFileFromLocalToGcs_files [of src db dp w]
    by (auto simp: copyFromLocalToGcs_def log_Fatal_def log_Printf_def
        split: sum.splits outcome.splits option.splits)
qed

subsection \<open>A bucket to local files: the buckets stay\<close>

lemma copyFileFromGcsToLocal_buckets:
  "buckets (final (copyFileFromGcsToLocal sb sk d w)) = buckets w"
proof -
  have mk: "buckets w2 = buckets w1" if "os_MkdirAll p w1 = Inr w2" for p w1 w2
    using os_MkdirAll_effect [OF that] by simp
  have op: "buckets w2 = buckets w1" if "os_OpenFile p w1 = Inr w2" for p w1 w2
    using os_OpenFile_effect [OF that] by simp
  have wr: "buckets w2 = buckets w1" if "file_Write p c w1 = Inr w2" for p c w1 w2
    using file_Write_effect [OF that] by simp
  have rd: "buckets w2 = buckets w1" if "gcs_NewReader b k w1 = Inr (c, w2)" for b k c w1 w2
    using that by (auto simp: gcs_NewReader_def split: option.splits)
  show ?thesis
    by (auto simp: copyFileFromGcsToLocal_def storage_NewClient_def Let_def file_Sync_def
      log_Fatal_def log_Printf_def split: if_splits sum.splits prod.splits
      dest!: mk op wr rd)
qed

lemma copyFromGcsToLocal_loop_buckets:
  "buckets (final (copyFromGcsToLocal_loop sb sp dst ns w)) = buckets w"
proof (induction ns arbitrary: w)
  case Nil
  show ?case by simp
next
  case (Cons n ns)
  have "buckets (final (copyFromGcsToLocal_loop sb sp dst (n # ns) w)) = buckets w"
    if "slice_from (length sp) n = Some rel" for rel
  proof (cases "copyFileFromGcsToLocal sb n
        (if rel = [] then dst else filepath_Join dst (splitOn CHR ''/'' rel)) w")
    case (Ok u w1)
    with copyFileFromGcsToLocal_buckets [of sb n _ w] have "buckets w1 = buckets w"
      by (metis final.simps(1))
    with Ok that Cons.IH [of w1] show ?thesis
      by (auto split: if_splits)
  next
    case (Exit m w1)
    with copyFileFromGcsToLocal_buckets [of sb n _ w] have "buckets w1 = buckets w"
      by (metis final.simps(2))
    with Exit that show ?thesis
      by (auto split: if_splits)
  qed
  then show ?case
    by (cases "slice_from (length sp) n") (simp_all add: panic_def log_Printf_def)
qed

lemma copyFromGcsToLocal_buckets:
  "buckets (final (copyFromGcsToLocal sb sp dst w)) = buckets w"
  using copyFromGcsToLocal_loop_buckets [of sb sp dst _ "w\<lparr>handles := handles w @ [Client]\<rparr>"]
  by (auto simp: copyFromGcsToLocal_def storage_NewClient_def log_Fatal_def log_Printf_def
      split: sum.splits)


subsection \<open>Local to local: what lies at the source stays\<close>

lemma walk_paths:
  "wf_node D \<Longrightarrow> valid_path q \<Longrightarrow> v \<in> set (walk (src @ q) D) \<Longrightarrow> valid_path src \<Longrightarrow>
     \<exists>q'. fst v = src @ q' \<and> valid_path q'"
proof (induction D arbitrary: q v)
  case (File c)
  then show ?case by auto
next
  case (Dir r es)
  show ?case
  proof (cases "r \<and> v \<noteq> (src @ q, True, None)")
    case False
    with Dir.prems show ?thesis by (auto split: if_splits)
  next
    case True
    with Dir.prems(3) obtain e where e: "e \<in> set es"
      and v: "v \<in> set (walk (filepath_Join (src @ q) [fst e]) (snd e))"
      by auto
    from Dir.prems e have wf: "wf_node (snd e)" and vq: "valid_path (q @ [fst e])"
      by auto
    then have "filepath_Join (src @ q) [fst e] = src @ (q @ [fst e])"
      using Dir.prems(4) by simp
    with v have "v \<in> set (walk (src @ (q @ [fst e])) (snd e))"
      by simp
    from Dir.IH [OF e snd_in_snds wf vq this Dir.prems(4)] show ?thesis .
  qed
qed

lemma apart_Nil:
  assumes "\<not> prefix src dst" and "\<not> prefix dst src"
  shows "\<not> prefix src (dst @ b)"
  using apart_append [OF assms, of "[]" b] by simp

lemma copyFromLocalToLocal_fn_frame:
  assumes vs: "valid_path src" and vd: "valid_path dst"
    and ap: "\<not> prefix src dst" "\<not> prefix dst src"
    and x: "lookup (files w) src = Some n"
    and v: "fst v = src @ q" "valid_path q"
  shows "lookup (files (final (copyFromLocalToLocal_fn src dst v w))) src = Some n"
proof (cases v)
  case (fields p isDir err)
  with v have p: "p = src @ q" by simp
  have fr: "lookup (files (final (copyFileFromLocalToLocal (src @ q) (dst @ q) w))) src = Some n"
    using copyFileFromLocalToLocal_frame [OF _ x apart_Nil [OF ap], of q "src @ q"] vd v(2)
    by simp
  show ?thesis
    using x fr vs vd v(2)
    by (simp add: fields p copyFromLocalToLocal_fn_def filepath_Rel_below log_Fatal_def log_Printf_def
        split: option.splits)
qed

lemma walk_visits_frame:
  assumes vs: "valid_path src" and vd: "valid_path dst"
    and ap: "\<not> prefix src dst" "\<not> prefix dst src"
  shows "\<forall>v\<in>set vs. \<exists>q. fst v = src @ q \<and> valid_path q \<Longrightarrow>
     lookup (files w) src = Some n \<Longrightarrow>
     lookup (files (final (walk_visits (copyFromLocalToLocal_fn src dst) vs w))) src = Some n"
proof (induction vs arbitrary: w)
  case Nil
  then show ?case by simp
next
  case (Cons v vs)
  from Cons.prems(1) obtain q where q: "fst v = src @ q" "valid_path q"
    by auto
  note f = copyFromLocalToLocal_fn_frame [OF vs vd ap Cons.prems(2) q]
  show ?case
  proof (cases "copyFromLocalToLocal_fn src dst v w")
    case (Ok r w1)
    with f Cons.IH [of w1] Cons.prems(1) show ?thesis
      by (cases r) auto
  next
    case (Exit m w1)
    with f show ?thesis by simp
  qed
qed

lemma copyFromLocalToLocal_frame:
  assumes vs: "valid_path src" and vd: "valid_path dst"
    and ap: "\<not> prefix src dst" "\<not> prefix dst src"
    and x: "lookup (files w) src = Some n" and wf: "wf_node n"
  shows "lookup (files (final (copyFromLocalToLocal src dst w))) src = Some n"
proof (cases n)
  case (File c)
  with x have "os_Stat src w = Inr False" by (simp add: os_Stat_def)
  then show ?thesis
    using copyFileFromLocalToLocal_frame [OF vd x, of src] ap
    by (simp add: copyFromLocalToLocal_def)
next
  case (Dir r es)
  with x have st: "os_Stat src w = Inr True" by (simp add: os_Stat_def)
  have "\<forall>v\<in>set (walk src n). \<exists>q. fst v = src @ q \<and> valid_path q"
    using walk_paths [OF wf, of "[]" _ src] vs by auto
  from walk_visits_frame [OF vs vd ap this x]
  have "lookup (files (final (filepath_Walk src (copyFromLocalToLocal_fn src dst) w))) src = Some n"
    using x by (simp add: filepath_Walk_def)
  then show ?thesis
    using st
    by (auto simp: copyFromLocalToLocal_def log_Printf_def split: outcome.splits option.splits)
qed

subsection \<open>Bucket to bucket: the objects under the source key stay\<close>

lemma copyFileFromGcsToGcs_frame:
  assumes "sb \<noteq> db \<or> name \<noteq> dk"
  shows "object_at (final (copyFileFromGcsToGcs sb sk db dk w)) sb name = object_at w sb name"
  using assms
  by (auto simp: copyFileFromGcsToGcs_def storage_NewClient_def gcs_Copier_Run_def Let_def
      log_Fatal_def log_Printf_def object_at_def update_conv'
      split: sum.splits option.splits if_splits)

lemma copyFromGcsToGcs_loop_frame:
  assumes ap: "sb \<noteq> db \<or> (\<not> prefix sp dp \<and> \<not> prefix dp sp)" and name: "prefix sp name"
  shows "object_at (final (copyFromGcsToGcs_loop sb sp db dp ns w)) sb name = object_at w sb name"
proof (induction ns arbitrary: w)
  case Nil
  show ?case by simp
next
  case (Cons n ns)
  have "object_at (final (copyFromGcsToGcs_loop sb sp db dp (n # ns) w)) sb name = object_at w sb name"
    if sl: "slice_from (length sp) n = Some rel" for rel
  proof -
    let ?dk = "if rel = [] then dp else (if \<not> HasSuffix dp ''/'' then dp @ ''/'' else dp) @ rel"
    have "prefix dp ?dk" by auto
    then have "sb \<noteq> db \<or> name \<noteq> ?dk"
      using ap name prefix_same_cases [of sp name dp] by metis
    note f = copyFileFromGcsToGcs_frame [OF this, of n w]
    show ?thesis
    proof (cases "copyFileFromGcsToGcs sb n db ?dk w")
      case (Ok u w1)
      with f sl Cons.IH [of w1] show ?thesis
        by (auto split: if_splits)
    next
      case (Exit m w1)
      with f sl show ?thesis
        by (auto split: if_splits)
    qed
  qed
  then show ?case
    by (cases "slice_from (length sp) n") (simp_all add: panic_def log_Printf_def object_at_def)
qed

lemma copyFromGcsToGcs_frame:
  assumes "sb \<noteq> db \<or> (\<not> prefix sp dp \<and> \<not> prefix dp sp)" and "prefix sp name"
  shows "object_at (final (copyFromGcsToGcs sb sp db dp w)) sb name = object_at w sb name"
  using copyFromGcsToGcs_loop_frame [OF assms, of _ "w\<lparr>handles := handles w @ [Client]\<rparr>"]
  by (auto simp: copyFromGcsToGcs_def storage_NewClient_def log_Fatal_def log_Printf_def
      object_at_def split: sum.splits)


text \<open>
  Claim C10. A copy from local files to a bucket leaves every local file as it was,
  and a copy from a bucket to local files leaves every bucket as it was. Within the
  local files, and within the buckets, the source is left as it was when the
  destination lies apart from it: neither local path is a leading part of the
  other; the buckets differ, or neither key is a leading part of the other. Without
  that the claim fails: copying a file onto itself empties it, because the
  destination is truncated before the first byte is read, and a bucket copy into a
  key below its own source key overwrites objects that are still to be copied.
\<close>

theorem copies_leave_source_alone:
  "files (final (copyFromLocalToGcs src db dp w)) = files w \<and>
   buckets (final (copyFromGcsToLocal sb sp dst w)) = buckets w \<and>
   (valid_path src \<and> valid_path dst \<and> \<not> prefix src dst \<and> \<not> prefix dst src \<and>
      lookup (files w) src = Some n \<and> wf_node n \<longrightarrow>
      lookup (files (final (copyFromLocalToLocal src dst w))) src = Some n) \<and>
   ((sb \<noteq> db \<or> (\<not> prefix sp dp \<and> \<not> prefix dp sp)) \<and> prefix sp name \<longrightarrow>
      object_at (final (copyFromGcsToGcs sb sp db dp w)) sb name = object_at w sb name)"
  using copyFromLocalToGcs_files copyFromGcsToLocal_buckets copyFromLocalToLocal_frame
    copyFromGcsToGcs_frame
  by blast

theorem copies_leave_source_alone_witness:
  "files (final (copyFromLocalToGcs [''a''] ''bkt'' ''up'' demo_world)) = files demo_world \<and>
   buckets (final (copyFromGcsToLocal ''bkt'' ''d/'' [''out''] demo_world)) = buckets demo_world \<and>
   (valid_path [''a''] \<and> valid_path [''out''] \<and> \<not> prefix [''a''] [''out''] \<and>
      \<not> prefix [''out''] [''a''] \<and>
      lookup (files demo_world) [''a''] =
        Some (Dir True [(''sub'', Dir True [(''2.txt'', File ''two'')]),
                        (''1.txt'', File ''one''), (''empty'', Dir True [])]) \<and>
      wf_node (Dir True [(''sub'', Dir True [(''2.txt'', File ''two'')]),
                         (''1.txt'', File ''one''), (''empty'', Dir True [])])) \<and>
   lookup (files (final (copyFromLocalToLocal [''a''] [''out''] demo_world))) [''a''] =
     Some (Dir True [(''sub'', Dir True [(''2.txt'', File ''two'')]),
                     (''1.txt'', File ''one''), (''empty'', Dir True [])]) \<and>
   ((\<not> prefix ''d/'' ''e'' \<and> \<not> prefix ''e'' ''d/'') \<and> prefix ''d/'' ''d/x'') \<and>
   object_at (final (copyFromGcsToGcs ''bkt'' ''d/'' ''bkt'' ''e'' demo_world)) ''bkt'' ''d/x'' =
     object_at demo_world ''bkt'' ''d/x''"
proof -
  let ?D = "Dir True [(''sub'', Dir True [(''2.txt'', File ''two'')]),
                      (''1.txt'', File ''one''), (''empty'', Dir True [])]"
  note t = copies_leave_source_alone [where src = "[''a'']" and db = "''bkt''" and dp = "''e''"
      and w = demo_world and sb = "''bkt''" and sp = "''d/''" and dst = "[''out'']"
      and n = ?D and name = "''d/x''"]
  note u = copies_leave_source_alone [where src = "[''a'']" and db = "''bkt''" and dp = "''up''"
      and w = demo_world and sb = "''bkt''" and sp = "''d/''" and dst = "[''out'']"
      and n = ?D and name = "''d/x''"]
  have h3: "valid_path [''a''] \<and> valid_path [''out''] \<and> \<not> prefix [''a''] [''out''] \<and>
      \<not> prefix [''out''] [''a''] \<and> lookup (files demo_world) [''a''] = Some ?D \<and> wf_node ?D"
    by (simp add: valid_path_def demo_world_def)
  have h4: "(\<not> prefix ''d/'' ''e'' \<and> \<not> prefix ''e'' ''d/'') \<and> prefix ''d/'' ''d/x''"
    by simp
  from t u h3 h4 show ?thesis by blast
qed

theorem copy_onto_itself_counterexample:
  "kind_at (files demo_world) [''f''] = Some (IsFile ''hello'') \<and>
   kind_at (files (final (copyFromLocalToLocal [''f''] [''f''] demo_world))) [''f''] =
     Some (IsFile []) \<and>
   object_at overlap_world ''bkt'' ''d/y/x'' = Some ''old'' \<and>
   object_at (final (copyFromGcsToGcs ''bkt'' ''d/'' ''bkt'' ''d/y'' overlap_world))
     ''bkt'' ''d/y/x'' = Some ''X''"
proof -
  have "kind_at (files demo_world) [''f''] = Some (IsFile ''hello'') \<and>
      kind_at (files (final (copyFromLocalToLocal [''f''] [''f''] demo_world))) [''f''] =
        Some (IsFile [])"
    by (simp add: copyFromLocalToLocal_def os_Stat_def copyFileFromLocalToLocal_def os_Open_def
        os_OpenFile_def io_Copy_def file_Read_def file_Write_def handle_Close_def log_Printf_def
        filepath_Dir_def filepath_Clean_def clean_step_def mkdirAll_root_demo demo_world_def
        kind_at_def)
  moreover have "object_at overlap_world ''bkt'' ''d/y/x'' = Some ''old'' \<and>
      object_at (final (copyFromGcsToGcs ''bkt'' ''d/'' ''bkt'' ''d/y'' overlap_world))
        ''bkt'' ''d/y/x'' = Some ''X''"
    by (simp add: copyFromGcsToGcs_def storage_NewClient_def gcs_Objects_def
        copyFileFromGcsToGcs_def gcs_Copier_Run_def object_at_def slice_from_def HasSuffix_def
        log_Fatal_def log_Printf_def overlap_world_def Let_def suffix_to_prefix)
  ultimately show ?thesis by blast
qed

section \<open>The same copy, run again\<close>


subsection \<open>Transfers to local files, once more\<close>

lemma strict_prefix_butlast:
  assumes "d \<noteq> []"
  shows "prefix q (butlast d) \<longleftrightarrow> strict_prefix q d"
proof -
  have "\<not> prefix d (butlast d)"
  proof
    assume "prefix d (butlast d)"
    then have "length d \<le> length (butlast d)" by (rule prefix_length_le)
    with assms show False by (cases d rule: rev_cases) simp_all
  qed
  then show ?thesis
    using prefix_butlast_iff [OF assms, of q] by (auto simp: strict_prefix_def)
qed

lemma is_file_case:
  "(case k of Some (IsFile c) \<Rightarrow> True | _ \<Rightarrow> False) \<longleftrightarrow> (\<exists>c. k = Some (IsFile c))"
  by (cases k) (auto split: kind.splits)

lemma settled_iff:
  "settled t ds \<longleftrightarrow>
     (\<forall>d\<in>set ds. d \<noteq> [] \<and> (\<forall>q. strict_prefix q d \<longrightarrow> kind_at t q = Some IsDir) \<and>
        (\<exists>c. kind_at t d = Some (IsFile c)))"
proof -
  have "(\<forall>q\<in>set (prefixes (butlast d)). kind_at t q = Some IsDir) \<longleftrightarrow>
      (\<forall>q. strict_prefix q d \<longrightarrow> kind_at t q = Some IsDir)" if "d \<noteq> []" for d
    unfolding Ball_def in_set_prefixes strict_prefix_butlast [OF that] ..
  then show ?thesis
    unfolding settled_def is_file_case by (intro ball_cong refl conj_cong)
qed

lemma os_MkdirAll_Inr_no_file:
  "os_MkdirAll p w = Inr w' \<Longrightarrow> no_file_on (files w) p"
proof (induction p w arbitrary: w' rule: os_MkdirAll.induct)
  case (1 p w)
  show ?case
  proof (cases "lookup (files w) p")
    case None
    with "1.prems" have ne: "p \<noteq> []"
      by (auto simp: os_MkdirAll.simps [of p w] split: if_splits)
    from "1.prems" None ne obtain w1 where w1: "os_MkdirAll (butlast p) w = Inr w1"
      by (auto simp: os_MkdirAll.simps [of p w] split: sum.splits)
    from "1.IH" [OF None ne w1] have "no_file_on (files w) (butlast p)" .
    with None show ?thesis
      using prefix_butlast_iff [OF ne] by (auto simp: no_file_on_iff kind_at_def)
  next
    case (Some n)
    with "1.prems" obtain r es where n: "n = Dir r es"
      by (cases n) (auto simp: os_MkdirAll.simps [of p w])
    have "kind_at (files w) q = Some IsDir" if "prefix q p" for q
    proof (cases "q = p")
      case True
      with Some n show ?thesis by (simp add: kind_at_def)
    next
      case False
      with that have "strict_prefix q p" by (simp add: strict_prefix_def)
      from lookup_above_Dir [OF Some this] show ?thesis
        by (auto simp: kind_at_def)
    qed
    then show ?thesis by (auto simp: no_file_on_iff)
  qed
qed

text \<open>
  The three steps every transfer to a local file takes: the directories, the empty
  file, the bytes.
\<close>

lemma local_write_steps:
  assumes v: "valid_path d"
    and mk: "os_MkdirAll (filepath_Dir d) w0 = Inr w2"
    and op: "os_OpenFile d w2 = Inr w3"
    and wr: "file_Write d c w4 = Inr w5" and w4: "files w4 = files w3"
  shows "kind_at (files w5) = kind_at (files w0) ++ put_map d c"
    and "no_file_on (files w0) (butlast d)" and "kind_at (files w0) d \<noteq> Some IsDir"
    and "d \<noteq> []"
proof -
  from mk v have mk': "os_MkdirAll (butlast d) w0 = Inr w2" by simp
  note mkE = os_MkdirAll_effect [OF mk']
  note opE = os_OpenFile_effect [OF op]
  note wrE = file_Write_effect [OF wr]
  from op show dne: "d \<noteq> []"
    by (auto simp: os_OpenFile_def dest: store_parent split: option.splits node.splits)
  show "no_file_on (files w0) (butlast d)"
    by (rule os_MkdirAll_Inr_no_file [OF mk'])
  have nb: "\<not> prefix d (butlast d)"
  proof
    assume "prefix d (butlast d)"
    then have "length d \<le> length (butlast d)" by (rule prefix_length_le)
    with dne show False by (cases d rule: rev_cases) simp_all
  qed
  from op have "kind_at (files w2) d \<noteq> Some IsDir"
    by (auto simp: os_OpenFile_def kind_at_def split: option.splits node.splits)
  with mkE nb show "kind_at (files w0) d \<noteq> Some IsDir" by simp
  have "kind_at (files w5) q = (kind_at (files w0) ++ put_map d c) q" for q
    using mkE prefix_butlast_iff [OF dne, of q]
    by (simp add: wrE(1) w4 opE(1) map_add_def put_map_def)
  then show "kind_at (files w5) = kind_at (files w0) ++ put_map d c" by (rule ext)
qed

text \<open>What one such transfer keeps of the shape of the tree.\<close>

lemma put_keeps_settled:
  assumes k: "k' = k ++ put_map d c"
    and nf: "\<forall>q c'. prefix q (butlast d) \<longrightarrow> k q \<noteq> Some (IsFile c')"
    and nd: "k d \<noteq> Some IsDir" and dne: "d \<noteq> []"
  shows "(k q = Some IsDir \<longrightarrow> k' q = Some IsDir) \<and>
         ((\<exists>c'. k q = Some (IsFile c')) \<longrightarrow> (\<exists>c'. k' q = Some (IsFile c')))"
proof -
  have sp: "prefix q (butlast d)" if "prefix q d" "q \<noteq> d"
    using that prefix_butlast_iff [OF dne, of q] by simp
  show ?thesis
    using nf nd sp by (auto simp: k map_add_def put_map_def)
qed

lemma settled_kept:
  assumes "kind_at t' = kind_at t ++ put_map d c"
    and "no_file_on t (butlast d)" and "kind_at t d \<noteq> Some IsDir" and "d \<noteq> []"
    and "settled t ds"
  shows "settled t' ds"
proof -
  note keep = put_keeps_settled [OF assms(1) _ assms(3,4)]
  have nf: "\<forall>q c'. prefix q (butlast d) \<longrightarrow> kind_at t q \<noteq> Some (IsFile c')"
    using assms(2) by (simp add: no_file_on_iff)
  show ?thesis
    unfolding settled_iff
  proof (intro ballI conjI allI impI)
    fix x assume x: "x \<in> set ds"
    with assms(5) show "x \<noteq> []" by (simp add: settled_iff)
    from x assms(5) obtain c' where "kind_at t x = Some (IsFile c')"
      by (auto simp: settled_iff)
    with keep [OF nf, of x] show "\<exists>c. kind_at t' x = Some (IsFile c)" by blast
  next
    fix x q assume x: "x \<in> set ds" and q: "strict_prefix q x"
    with assms(5) have "kind_at t q = Some IsDir" by (auto simp: settled_iff)
    with keep [OF nf, of q] show "kind_at t' q = Some IsDir" by blast
  qed
qed

lemma settled_made:
  assumes "kind_at t' = kind_at t ++ put_map d c" and "d \<noteq> []"
  shows "settled t' [d]"
  using assms by (auto simp: settled_iff map_add_def put_map_def strict_prefix_def)

lemma settled_Cons: "settled t (d # ds) \<longleftrightarrow> settled t [d] \<and> settled t ds"
  by (auto simp: settled_iff)

lemma settled_ready:
  assumes "settled t ds" and "d \<in> set ds"
  shows "no_file_on t (butlast d)" and "kind_at t d \<noteq> Some IsDir" and "d \<noteq> []"
    and "kind_at t [] = Some IsDir"
proof -
  from assms have dne: "d \<noteq> []" and dirs: "\<And>q. strict_prefix q d \<Longrightarrow> kind_at t q = Some IsDir"
    and f: "\<exists>c. kind_at t d = Some (IsFile c)"
    by (auto simp: settled_iff)
  show "d \<noteq> []" by (rule dne)
  from f show "kind_at t d \<noteq> Some IsDir" by auto
  have "strict_prefix q d" if "prefix q (butlast d)" for q
    using that strict_prefix_butlast [OF dne, of q] by simp
  with dirs show "no_file_on t (butlast d)"
    by (auto simp: no_file_on_iff)
  from dne have "strict_prefix [] d" by (cases d) simp_all
  with dirs show "kind_at t [] = Some IsDir" by blast
qed

lemma map_add_twice: "(k ++ m) ++ m = k ++ m"
  by (rule ext) (simp add: map_add_def split: option.splits)


subsection \<open>A local transfer run again\<close>

lemma copyFileFromLocalToLocal_put:
  assumes v: "valid_path d" and ok: "copyFileFromLocalToLocal s d w = Ok u w'"
  obtains c where "kind_at (files w') = kind_at (files w) ++ put_map d c"
    and "if s = d then c = [] else kind_at (files w) s = Some (IsFile c)"
    and "no_file_on (files w) (butlast d)" and "kind_at (files w) d \<noteq> Some IsDir"
    and "d \<noteq> []" and "\<exists>c'. kind_at (files w) s = Some (IsFile c')"
proof -
  from ok obtain w2 w3 c w5 where
    ex: "lookup (files w) s \<noteq> None"
    and mk: "os_MkdirAll (filepath_Dir d) (w\<lparr>handles := handles w @ [LocalReader s]\<rparr>) = Inr w2"
    and op: "os_OpenFile d w2 = Inr w3"
    and rd: "file_Read s (log_Printf (Copying (Local s) (Local d)) w3) = Inr c"
    and wr: "file_Write d c (log_Printf (Copying (Local s) (Local d)) w3) = Inr w5"
    and w': "w' = w5\<lparr>handles := remove1 (LocalWriter d) (handles w5)\<rparr>"
    by (rule copyFileFromLocalToLocal_steps)
  have f4: "files (log_Printf (Copying (Local s) (Local d)) w3) = files w3"
    by (simp add: log_Printf_def)
  note st = local_write_steps [OF v mk op wr f4, simplified]
  from copyFileFromLocalToLocal_Ok(1) [OF v ok] obtain c0
    where c0: "kind_at (files w') = kind_at (files w) ++ put_map d c0"
      "if s = d then c0 = [] else kind_at (files w) s = Some (IsFile c0)"
    by blast
  have "\<exists>c'. kind_at (files w) s = Some (IsFile c')"
  proof (cases "s = d")
    case True
    from rd have "kind_at (files w3) s = Some (IsFile c)"
      by (simp add: file_Read_iff log_Printf_def)
    from ex st(3) True show ?thesis
      by (auto simp: kind_at_def split: option.splits node.splits)
  next
    case False
    with c0(2) show ?thesis by auto
  qed
  with c0 st show ?thesis
    by (intro that [of c0]) auto
qed

lemma single_local_transfer_again:
  assumes v: "valid_path d" and ok: "copyFileFromLocalToLocal s d w = Ok u w1"
  shows "\<exists>w2. copyFileFromLocalToLocal s d w1 = Ok u w2 \<and> kind_at (files w2) = kind_at (files w1)"
proof -
  from copyFileFromLocalToLocal_put [OF v ok] obtain c where
    k1: "kind_at (files w1) = kind_at (files w) ++ put_map d c"
    and c: "if s = d then c = [] else kind_at (files w) s = Some (IsFile c)"
    and nf: "no_file_on (files w) (butlast d)" and dne: "d \<noteq> []"
    by metis
  have set1: "settled (files w1) [d]"
    by (rule settled_made [OF k1 dne])
  have s1: "kind_at (files w1) s = Some (IsFile c)"
  proof (cases "s = d")
    case True
    then show ?thesis by (simp add: k1 map_add_def put_map_def)
  next
    case False
    with c have cs: "kind_at (files w) s = Some (IsFile c)" by simp
    with nf have "\<not> prefix s (butlast d)" by (auto simp: no_file_on_iff)
    then have "\<not> prefix s d"
      using False prefix_butlast_iff [OF dne, of s] by simp
    with cs False show ?thesis by (simp add: k1 map_add_def put_map_def)
  qed
  note r = settled_ready [OF set1, of d, simplified]
  from copyFileFromLocalToLocal_succeeds [OF v dne s1 r(1) r(2) r(4)]
  obtain w2 where ok2: "copyFileFromLocalToLocal s d w1 = Ok () w2" by blast
  from copyFileFromLocalToLocal_put [OF v ok2] obtain c2 where
    k2: "kind_at (files w2) = kind_at (files w1) ++ put_map d c2"
    and c2: "if s = d then c2 = [] else kind_at (files w1) s = Some (IsFile c2)"
    by metis
  have "c2 = c"
    using c c2 s1 by (auto split: if_splits)
  then have "kind_at (files w2) = kind_at (files w1)"
    by (simp add: k2 k1 map_add_twice)
  with ok2 show ?thesis by simp
qed


subsection \<open>A list of local transfers run again\<close>

lemma copy_rels_keeps_settled:
  assumes vd: "valid_path dst"
  shows "copy_rels src dst rs w = Ok r w1 \<Longrightarrow> \<forall>p\<in>set rs. valid_path p \<Longrightarrow>
     settled (files w) X \<Longrightarrow> settled (files w1) X"
proof (induction rs arbitrary: w)
  case Nil
  then show ?case by simp
next
  case (Cons p rs)
  from Cons.prems(1) obtain w' where ok: "copyFileFromLocalToLocal (src @ p) (dst @ p) w = Ok () w'"
    and rest: "copy_rels src dst rs w' = Ok r w1"
    by (auto split: outcome.splits)
  have v: "valid_path (dst @ p)" using vd Cons.prems(2) by simp
  from copyFileFromLocalToLocal_put [OF v ok] obtain c where
    "kind_at (files w') = kind_at (files w) ++ put_map (dst @ p) c"
    "no_file_on (files w) (butlast (dst @ p))" "kind_at (files w) (dst @ p) \<noteq> Some IsDir"
    "dst @ p \<noteq> []"
    by metis
  from settled_kept [OF this Cons.prems(3)] have "settled (files w') X" .
  from Cons.IH [OF rest _ this] Cons.prems(2) show ?case by simp
qed

lemma copy_rels_first_run:
  assumes vd: "valid_path dst" and ap: "\<not> prefix src dst" "\<not> prefix dst src"
  shows "copy_rels src dst rs w = Ok r w1 \<Longrightarrow> \<forall>p\<in>set rs. valid_path p \<Longrightarrow>
     \<forall>p\<in>set rs. kind_at (files w) (src @ p) = Some (IsFile (cont p)) \<Longrightarrow>
     settled (files w1) (map ((@) dst) rs) \<and>
     (\<forall>p\<in>set rs. kind_at (files w1) (src @ p) = Some (IsFile (cont p))) \<and>
     kind_at (files w1) = kind_at (files w) ++ puts_map (map (\<lambda>p. (dst @ p, cont p)) rs)"
proof (induction rs arbitrary: w)
  case Nil
  then show ?case by (simp add: settled_def)
next
  case (Cons p rs)
  from Cons.prems(1) obtain w' where ok: "copyFileFromLocalToLocal (src @ p) (dst @ p) w = Ok () w'"
    and rest: "copy_rels src dst rs w' = Ok r w1"
    by (auto split: outcome.splits)
  have v: "valid_path (dst @ p)" using vd Cons.prems(2) by simp
  have sd: "src @ p \<noteq> dst @ p" using ap by auto
  from copyFileFromLocalToLocal_put [OF v ok] sd Cons.prems(3) obtain c where
    k': "kind_at (files w') = kind_at (files w) ++ put_map (dst @ p) c"
    and c: "c = cont p" and dne: "dst @ p \<noteq> []"
    by (metis kind.inject list.set_intros(1) option.inject)
  have src': "\<forall>q\<in>set rs. kind_at (files w') (src @ q) = Some (IsFile (cont q))"
    using Cons.prems(3) by (simp add: k' map_add_def put_map_apart [OF ap])
  have "\<forall>p\<in>set rs. valid_path p" using Cons.prems(2) by simp
  from Cons.IH [OF rest this src']
  have IH: "settled (files w1) (map ((@) dst) rs)"
    "\<forall>q\<in>set rs. kind_at (files w1) (src @ q) = Some (IsFile (cont q))"
    "kind_at (files w1) = kind_at (files w') ++ puts_map (map (\<lambda>p. (dst @ p, cont p)) rs)"
    by blast+
  have "settled (files w') [dst @ p]"
    by (rule settled_made [OF k' dne])
  from copy_rels_keeps_settled [OF vd rest _ this] Cons.prems(2)
  have s1: "settled (files w1) [dst @ p]" by simp
  have p1: "kind_at (files w1) (src @ p) = Some (IsFile (cont p))"
  proof -
    have "kind_at (files w') (src @ p) = Some (IsFile (cont p))"
      using Cons.prems(3) by (simp add: k' map_add_def put_map_apart [OF ap])
    moreover have "puts_map (map (\<lambda>p. (dst @ p, cont p)) rs) (src @ p) = None"
      by (induction rs) (simp_all add: map_add_def put_map_apart [OF ap])
    ultimately show ?thesis by (simp add: IH(3) map_add_def)
  qed
  show ?case
    using IH s1 p1 settled_Cons [of "files w1" "dst @ p" "map ((@) dst) rs"]
    by (simp add: k' c)
qed

lemma copy_rels_again:
  assumes vd: "valid_path dst" and ap: "\<not> prefix src dst" "\<not> prefix dst src"
  shows "settled (files t) X \<Longrightarrow> (@) dst ` set rs \<subseteq> set X \<Longrightarrow> \<forall>p\<in>set rs. valid_path p \<Longrightarrow>
     \<forall>p\<in>set rs. kind_at (files t) (src @ p) = Some (IsFile (cont p)) \<Longrightarrow>
     \<exists>t'. copy_rels src dst rs t = Ok None t' \<and>
          kind_at (files t') = kind_at (files t) ++ puts_map (map (\<lambda>p. (dst @ p, cont p)) rs)"
proof (induction rs arbitrary: t)
  case Nil
  show ?case by simp
next
  case (Cons p rs)
  have v: "valid_path (dst @ p)" using vd Cons.prems(3) by simp
  have sd: "src @ p \<noteq> dst @ p" using ap by auto
  from Cons.prems(2) have inX: "dst @ p \<in> set X" by auto
  note r = settled_ready [OF Cons.prems(1) inX]
  from Cons.prems(4) have sp: "kind_at (files t) (src @ p) = Some (IsFile (cont p))" by simp
  from copyFileFromLocalToLocal_succeeds [OF v r(3) sp r(1) r(2) r(4)]
  obtain t1 where ok: "copyFileFromLocalToLocal (src @ p) (dst @ p) t = Ok () t1" by blast
  from copyFileFromLocalToLocal_put [OF v ok] sd sp obtain c where
    k1: "kind_at (files t1) = kind_at (files t) ++ put_map (dst @ p) c"
    and c: "c = cont p"
    by (metis kind.inject option.inject)
  have "settled (files t1) X"
    by (rule settled_kept [OF k1 r(1) r(2) r(3) Cons.prems(1)])
  moreover have "\<forall>q\<in>set rs. kind_at (files t1) (src @ q) = Some (IsFile (cont q))"
    using Cons.prems(4) by (simp add: k1 map_add_def put_map_apart [OF ap])
  ultimately obtain t' where "copy_rels src dst rs t1 = Ok None t'"
    "kind_at (files t') = kind_at (files t1) ++ puts_map (map (\<lambda>p. (dst @ p, cont p)) rs)"
    using Cons.IH [of t1] Cons.prems(2,3) by auto
  with ok show ?case
    by (simp add: k1 c)
qed

lemma copy_rels_idempotent:
  assumes vd: "valid_path dst" and ap: "\<not> prefix src dst" "\<not> prefix dst src"
    and v: "\<forall>p\<in>set rs. valid_path p"
    and srcs: "\<forall>p\<in>set rs. \<exists>c. kind_at (files w) (src @ p) = Some (IsFile c)"
    and ok: "copy_rels src dst rs w = Ok r w1"
  shows "\<exists>w2. copy_rels src dst rs w1 = Ok None w2 \<and> kind_at (files w2) = kind_at (files w1)"
proof -
  define cont where "cont p = (case kind_at (files w) (src @ p) of Some (IsFile c) \<Rightarrow> c)" for p
  have c: "\<forall>p\<in>set rs. kind_at (files w) (src @ p) = Some (IsFile (cont p))"
    using srcs by (auto simp: cont_def)
  from copy_rels_first_run [OF vd ap ok v c]
  have f: "settled (files w1) (map ((@) dst) rs)"
    "\<forall>p\<in>set rs. kind_at (files w1) (src @ p) = Some (IsFile (cont p))"
    "kind_at (files w1) = kind_at (files w) ++ puts_map (map (\<lambda>p. (dst @ p, cont p)) rs)"
    by blast+
  from copy_rels_again [OF vd ap f(1) _ v f(2)]
  obtain w2 where "copy_rels src dst rs w1 = Ok None w2"
    "kind_at (files w2) = kind_at (files w1) ++ puts_map (map (\<lambda>p. (dst @ p, cont p)) rs)"
    by auto
  then show ?thesis
    by (simp add: f(3) map_add_twice)
qed


subsection \<open>A tree that cannot be listed stops the walk\<close>

lemma walk_unlistable:
  "\<not> listable D \<Longrightarrow> \<exists>pre p e post. walk p0 D = pre @ (p, True, Some e) # post"
proof (induction D arbitrary: p0)
  case (File c)
  then show ?case by simp
next
  case (Dir r es)
  show ?case
  proof (cases r)
    case False
    then have "walk p0 (Dir r es) = [] @ (p0, True, Some (EACCES p0)) # []" by simp
    then show ?thesis by blast
  next
    case True
    with Dir.prems obtain x where x: "x \<in> set es" and nl: "\<not> listable (snd x)"
      by auto
    let ?f = "\<lambda>e. walk (filepath_Join p0 [fst e]) (snd e)"
    from x have "x \<in> set (sort_key fst es)" by simp
    then obtain xs ys where s: "sort_key fst es = xs @ x # ys"
      by (meson split_list)
    from Dir.IH [OF x snd_in_snds nl, of "filepath_Join p0 [fst x]"]
    obtain pre p e post where "?f x = pre @ (p, True, Some e) # post"
      by blast
    then have "walk p0 (Dir r es) =
        ((p0, True, None) # concat (map ?f xs) @ pre) @ (p, True, Some e) # (post @ concat (map ?f ys))"
      using True by (simp add: s)
    then show ?thesis by blast
  qed
qed

lemma walk_Ok_listable:
  assumes "walk_visits (copyFromLocalToLocal_fn src dst) (walk p0 D) w = Ok r w'"
  shows "listable D"
proof (rule ccontr)
  assume "\<not> listable D"
  from walk_unlistable [OF this, of p0] obtain pre p e post
    where d: "walk p0 D = pre @ (p, True, Some e) # post" by blast
  have a: "copyFromLocalToLocal_fn src dst (p, True, Some e) w0 = Exit 1 (log_Printf (Failed e) w0)" for w0
    by (simp add: copyFromLocalToLocal_fn_def log_Fatal_def)
  from assms show False
    using walk_visits_never_errs(1) [of src dst pre w]
    by (auto simp: d walk_visits_error [of "copyFromLocalToLocal_fn src dst", OF a]
        split: outcome.splits option.splits)
qed

lemma copyFromLocalToLocal_again:
  assumes vs: "valid_path src" and vd: "valid_path dst"
    and ap: "\<not> prefix src dst" "\<not> prefix dst src"
    and x: "lookup (files w) src = Some n" and wf: "wf_node n"
    and ok: "copyFromLocalToLocal src dst w = Ok u w1"
  shows "\<exists>w2. copyFromLocalToLocal src dst w1 = Ok u w2 \<and> kind_at (files w2) = kind_at (files w1)"
proof -
  from copyFromLocalToLocal_frame [OF vs vd ap x wf] ok
  have x1: "lookup (files w1) src = Some n" by simp
  show ?thesis
  proof (cases n)
    case (File c)
    with x x1 have "os_Stat src w = Inr False" "os_Stat src w1 = Inr False"
      by (simp_all add: os_Stat_def)
    with ok single_local_transfer_again [OF vd, of src w u w1] show ?thesis
      by (simp add: copyFromLocalToLocal_def)
  next
    case (Dir r es)
    let ?fn = "copyFromLocalToLocal_fn src dst"
    from Dir x x1 have st: "os_Stat src w = Inr True" "os_Stat src w1 = Inr True"
      by (simp_all add: os_Stat_def)
    from ok st(1) x obtain r0 where wk: "walk_visits ?fn (walk src n) w = Ok r0 w1"
      by (auto simp: copyFromLocalToLocal_def filepath_Walk_def log_Printf_def
          split: outcome.splits option.splits dest: walk_visits_never_errs(1) [THEN notE])
    from walk_Ok_listable [OF wk] have ls: "listable n" .
    have eq: "walk_visits ?fn (walk src n) w0 = copy_rels src dst (leaves n) w0" for w0
    proof -
      have "walk_visits ?fn (walk (src @ []) n) w0 = copy_rels src dst (map ((@) []) (leaves n)) w0"
        by (rule walk_copy_rels [OF vs vd wf ls]) (simp_all add: Dir)
      moreover have "map ((@) []) (leaves n) = leaves n"
        by (rule map_idI) simp
      ultimately show ?thesis by simp
    qed
    from wk have c1: "copy_rels src dst (leaves n) w = Ok r0 w1"
      by (simp add: eq)
    have srcs: "\<forall>p\<in>set (leaves n). \<exists>c. kind_at (files w) (src @ p) = Some (IsFile c)"
      using x by (auto simp: leaves_iff [OF wf] kind_at_def lookup_append)
    from copy_rels_idempotent [OF vd ap _ srcs c1] valid_leaves [OF wf]
    obtain w2 where "copy_rels src dst (leaves n) w1 = Ok None w2"
      and k: "kind_at (files w2) = kind_at (files w1)"
      by blast
    then have "copyFromLocalToLocal src dst w1 = Ok () w2"
      using st(2) x1 by (simp add: copyFromLocalToLocal_def filepath_Walk_def eq)
    with k show ?thesis by simp
  qed
qed


subsection \<open>A transfer from a bucket to a local file, run again\<close>

lemma copyFileFromGcsToLocal_put:
  assumes v: "valid_path d" and ok: "copyFileFromGcsToLocal sb sk d w = Ok u w'"
  obtains c where "object_at w sb sk = Some c" and "credentials w"
    and "kind_at (files w') = kind_at (files w) ++ put_map d c"
    and "no_file_on (files w) (butlast d)" and "kind_at (files w) d \<noteq> Some IsDir"
    and "d \<noteq> []" and "buckets w' = buckets w" and "credentials w' = credentials w"
proof -
  let ?w2 = "log_Printf (Copying (Gcs sb sk) (Local d)) (w\<lparr>handles := handles w @ [Client]\<rparr>)"
  from ok have cr: "credentials w"
    by (auto simp: copyFileFromGcsToLocal_def storage_NewClient_def log_Fatal_def split: if_splits)
  with ok obtain c w3 w4 w5 w6 where rd: "gcs_NewReader sb sk ?w2 = Inr (c, w3)"
    and mk: "os_MkdirAll (filepath_Dir d) w3 = Inr w4"
    and op: "os_OpenFile d w4 = Inr w5"
    and wr: "file_Write d c w5 = Inr w6"
    and w': "w' = w6\<lparr>handles := remove1 (GcsReader sb sk) (remove1 (LocalWriter d) (handles w6))\<rparr>"
    by (auto simp: copyFileFromGcsToLocal_def storage_NewClient_def Let_def file_Sync_def
        log_Fatal_def split: sum.splits prod.splits)
  from rd have c: "object_at w sb sk = Some c" and w3: "files w3 = files w"
    "buckets w3 = buckets w" "credentials w3 = credentials w"
    by (auto simp: gcs_NewReader_def object_at_def log_Printf_def split: option.splits)
  note st = local_write_steps [OF v mk op wr refl]
  note mkE = os_MkdirAll_effect [OF mk]
  note opE = os_OpenFile_effect [OF op]
  note wrE = file_Write_effect [OF wr]
  show ?thesis
    using c cr st w3 mkE opE wrE
    by (intro that [of c]) (simp_all add: w')
qed

lemma copyFileFromGcsToLocal_succeeds:
  assumes v: "valid_path d" and dne: "d \<noteq> []"
    and cr: "credentials w" and c: "object_at w sb sk = Some c"
    and nf: "no_file_on (files w) (butlast d)"
    and nd: "kind_at (files w) d \<noteq> Some IsDir"
    and root: "kind_at (files w) [] = Some IsDir"
  shows "\<exists>w'. copyFileFromGcsToLocal sb sk d w = Ok () w'"
proof -
  let ?w2 = "log_Printf (Copying (Gcs sb sk) (Local d)) (w\<lparr>handles := handles w @ [Client]\<rparr>)"
  let ?w3 = "?w2\<lparr>handles := handles ?w2 @ [GcsReader sb sk]\<rparr>"
  from c have rd: "gcs_NewReader sb sk ?w2 = Inr (c, ?w3)"
    by (auto simp: gcs_NewReader_def object_at_def log_Printf_def split: option.splits)
  have f3: "files ?w3 = files w" by (simp add: log_Printf_def)
  from os_MkdirAll_succeeds [of ?w3 "butlast d"] nf root f3
  obtain w4 where mk: "os_MkdirAll (butlast d) ?w3 = Inr w4"
    by auto
  note mkE = os_MkdirAll_effect [OF mk]
  have "\<not> prefix d (butlast d)"
    using strict_prefix_butlast [OF dne, of d] by simp
  with mkE nd f3 have "kind_at (files w4) (butlast d) = Some IsDir" "kind_at (files w4) d \<noteq> Some IsDir"
    by auto
  from os_OpenFile_succeeds [OF dne this] obtain w5 where op: "os_OpenFile d w4 = Inr w5"
    by auto
  note opE = os_OpenFile_effect [OF op]
  have "kind_at (files w5) d = Some (IsFile [])"
    by (simp add: opE(1))
  from file_Write_succeeds [OF dne this] obtain w6 where wr: "file_Write d c w5 = Inr w6"
    by auto
  show ?thesis
    using cr rd mk op wr v
    by (simp add: copyFileFromGcsToLocal_def storage_NewClient_def Let_def file_Sync_def)
qed


subsection \<open>A copy from a bucket to local files, run again\<close>

lemma copyFromGcsToLocal_loop_step:
  assumes "prefix sp n"
  shows "copyFromGcsToLocal_loop sb sp dst (n # ns) w =
     (case copyFileFromGcsToLocal sb n (local_dest sp dst n) w of
        Ok u w' \<Rightarrow> copyFromGcsToLocal_loop sb sp dst ns w'
      | Exit m w' \<Rightarrow> Exit m w')"
proof -
  from assms have "slice_from (length sp) n = Some (drop (length sp) n)"
    by (auto simp: slice_from_def prefix_def)
  then show ?thesis
    by (simp add: local_dest_def)
qed

lemma valid_local_dest: "valid_path dst \<Longrightarrow> valid_path (local_dest sp dst n)"
  by (simp add: local_dest_def)

lemma gcs_loop_keeps_settled:
  assumes vd: "valid_path dst"
  shows "copyFromGcsToLocal_loop sb sp dst ns w = Ok r w1 \<Longrightarrow> \<forall>n\<in>set ns. prefix sp n \<Longrightarrow>
     settled (files w) X \<Longrightarrow> settled (files w1) X"
proof (induction ns arbitrary: w)
  case Nil
  then show ?case by simp
next
  case (Cons n ns)
  from Cons.prems(2) have pn: "prefix sp n" by simp
  from Cons.prems(1) obtain w' where ok: "copyFileFromGcsToLocal sb n (local_dest sp dst n) w = Ok () w'"
    and rest: "copyFromGcsToLocal_loop sb sp dst ns w' = Ok r w1"
    by (auto simp: copyFromGcsToLocal_loop_step [OF pn] simp del: copyFromGcsToLocal_loop.simps
        split: outcome.splits)
  from copyFileFromGcsToLocal_put [OF valid_local_dest [OF vd] ok] obtain c where
    "kind_at (files w') = kind_at (files w) ++ put_map (local_dest sp dst n) c"
    "no_file_on (files w) (butlast (local_dest sp dst n))"
    "kind_at (files w) (local_dest sp dst n) \<noteq> Some IsDir"
    "local_dest sp dst n \<noteq> []"
    by metis
  from settled_kept [OF this Cons.prems(3)] have "settled (files w') X" .
  from Cons.IH [OF rest _ this] Cons.prems(2) show ?case by simp
qed

lemma gcs_loop_first_run:
  assumes vd: "valid_path dst"
  shows "copyFromGcsToLocal_loop sb sp dst ns w = Ok r w1 \<Longrightarrow> \<forall>n\<in>set ns. prefix sp n \<Longrightarrow>
     settled (files w1) (map (local_dest sp dst) ns) \<and>
     (\<forall>n\<in>set ns. object_at w sb n \<noteq> None) \<and> credentials w1 = credentials w \<and>
     (ns \<noteq> [] \<longrightarrow> credentials w) \<and> buckets w1 = buckets w \<and>
     kind_at (files w1) =
       kind_at (files w) ++ puts_map (map (\<lambda>n. (local_dest sp dst n, the (object_at w sb n))) ns)"
proof (induction ns arbitrary: w)
  case Nil
  then show ?case by (simp add: settled_def)
next
  case (Cons n ns)
  from Cons.prems(2) have pn: "prefix sp n" and pns: "\<forall>n\<in>set ns. prefix sp n" by simp_all
  from Cons.prems(1) obtain w' where ok: "copyFileFromGcsToLocal sb n (local_dest sp dst n) w = Ok () w'"
    and rest: "copyFromGcsToLocal_loop sb sp dst ns w' = Ok r w1"
    by (auto simp: copyFromGcsToLocal_loop_step [OF pn] simp del: copyFromGcsToLocal_loop.simps
        split: outcome.splits)
  from copyFileFromGcsToLocal_put [OF valid_local_dest [OF vd] ok] obtain c where
    c: "object_at w sb n = Some c" and cr: "credentials w"
    and k': "kind_at (files w') = kind_at (files w) ++ put_map (local_dest sp dst n) c"
    and dne: "local_dest sp dst n \<noteq> []"
    and b': "buckets w' = buckets w" and cr': "credentials w' = credentials w"
    by metis
  have o': "object_at w' sb m = object_at w sb m" for m
    by (simp add: object_at_def b')
  have IH: "settled (files w1) (map (local_dest sp dst) ns)"
    "\<forall>n\<in>set ns. object_at w sb n \<noteq> None" "credentials w1 = credentials w"
    "buckets w1 = buckets w"
    "kind_at (files w1) =
       kind_at (files w') ++ puts_map (map (\<lambda>n. (local_dest sp dst n, the (object_at w sb n))) ns)"
    using Cons.IH [OF rest pns] unfolding o' b' cr' by blast+
  have "settled (files w') [local_dest sp dst n]"
    by (rule settled_made [OF k' dne])
  from gcs_loop_keeps_settled [OF vd rest pns this]
  have s1: "settled (files w1) [local_dest sp dst n]" .
  show ?case
    using IH(1-4) s1 c cr settled_Cons [of "files w1" "local_dest sp dst n" "map (local_dest sp dst) ns"]
    by (simp add: IH(5) k')
qed

lemma gcs_loop_again:
  assumes vd: "valid_path dst"
  shows "settled (files t) X \<Longrightarrow> local_dest sp dst ` set ns \<subseteq> set X \<Longrightarrow>
     \<forall>n\<in>set ns. prefix sp n \<Longrightarrow> \<forall>n\<in>set ns. object_at t sb n \<noteq> None \<Longrightarrow> credentials t \<Longrightarrow>
     \<exists>t'. copyFromGcsToLocal_loop sb sp dst ns t = Ok None t' \<and>
          kind_at (files t') =
            kind_at (files t) ++
            puts_map (map (\<lambda>n. (local_dest sp dst n, the (object_at t sb n))) ns)"
proof (induction ns arbitrary: t)
  case Nil
  show ?case by simp
next
  case (Cons n ns)
  let ?d = "local_dest sp dst n"
  from Cons.prems(3) have pn: "prefix sp n" and pns: "\<forall>n\<in>set ns. prefix sp n" by simp_all
  from Cons.prems(2) have inX: "?d \<in> set X" by auto
  note r = settled_ready [OF Cons.prems(1) inX]
  from Cons.prems(4) obtain c where c: "object_at t sb n = Some c" by auto
  from copyFileFromGcsToLocal_succeeds [OF valid_local_dest [OF vd] r(3) Cons.prems(5) c r(1) r(2) r(4)]
  obtain t1 where ok: "copyFileFromGcsToLocal sb n ?d t = Ok () t1" by blast
  from copyFileFromGcsToLocal_put [OF valid_local_dest [OF vd] ok] c obtain
    k1: "kind_at (files t1) = kind_at (files t) ++ put_map ?d c"
    and b1: "buckets t1 = buckets t" and cr1: "credentials t1 = credentials t"
    by (metis option.inject)
  have o1: "object_at t1 sb m = object_at t sb m" for m
    by (simp add: object_at_def b1)
  have "settled (files t1) X"
    by (rule settled_kept [OF k1 r(1) r(2) r(3) Cons.prems(1)])
  with Cons.IH [of t1] Cons.prems(2,4,5) pns obtain t' where
    "copyFromGcsToLocal_loop sb sp dst ns t1 = Ok None t'"
    "kind_at (files t') =
       kind_at (files t1) ++ puts_map (map (\<lambda>n. (?d, the (object_at t sb n))) [])
         ++ puts_map (map (\<lambda>n. (local_dest sp dst n, the (object_at t sb n))) ns)"
    by (auto simp: o1 cr1)
  with ok show ?case
    by (simp add: copyFromGcsToLocal_loop_step [OF pn] k1 c del: copyFromGcsToLocal_loop.simps)
qed

lemma copyFromGcsToLocal_loop_None:
  "copyFromGcsToLocal_loop sb sp dst ns w = Ok r w1 \<Longrightarrow> r = None"
  by (induction ns arbitrary: w) (auto simp: panic_def split: option.splits outcome.splits if_splits)

lemma copyFromGcsToLocal_again:
  assumes vd: "valid_path dst" and ok: "copyFromGcsToLocal sb sp dst w = Ok r w1"
  shows "\<exists>w2. copyFromGcsToLocal sb sp dst w1 = Ok r w2 \<and> kind_at (files w2) = kind_at (files w1)"
proof -
  let ?w0 = "w\<lparr>handles := handles w @ [Client]\<rparr>"
  from ok obtain names where cr: "credentials w" and ls: "gcs_Objects sb sp w = Inr names"
    and l1: "copyFromGcsToLocal_loop sb sp dst names ?w0 = Ok r w1"
    by (auto simp: copyFromGcsToLocal_def storage_NewClient_def log_Fatal_def
        split: if_splits sum.splits)
  note pre = gcs_Objects_prefix [OF ls]
  from gcs_loop_first_run [OF vd l1 pre]
  have f: "settled (files w1) (map (local_dest sp dst) names)"
    "\<forall>n\<in>set names. object_at ?w0 sb n \<noteq> None" "credentials w1 = credentials ?w0"
    "buckets w1 = buckets ?w0"
    "kind_at (files w1) = kind_at (files ?w0) ++
       puts_map (map (\<lambda>n. (local_dest sp dst n, the (object_at ?w0 sb n))) names)"
    by blast+
  let ?w1 = "w1\<lparr>handles := handles w1 @ [Client]\<rparr>"
  have o: "object_at ?w1 sb m = object_at ?w0 sb m" for m
    using f(4) by (simp add: object_at_def)
  have ls1: "gcs_Objects sb sp ?w1 = Inr names"
    using ls f(4) by (simp add: gcs_Objects_def)
  have r: "r = None"
    using l1 by (rule copyFromGcsToLocal_loop_None)
  from gcs_loop_again [OF vd, of ?w1 "map (local_dest sp dst) names" sp names sb] f(1,2,3) cr
  obtain w2 where l2: "copyFromGcsToLocal_loop sb sp dst names ?w1 = Ok None w2"
    and k2: "kind_at (files w2) = kind_at (files ?w1) ++
       puts_map (map (\<lambda>n. (local_dest sp dst n, the (object_at ?w1 sb n))) names)"
    using pre by (auto simp: o)
  have "kind_at (files w2) = kind_at (files w1)"
    using f(5) by (simp add: k2 o map_add_twice)
  moreover have "copyFromGcsToLocal sb sp dst w1 = Ok None w2"
    using cr f(3) ls1 l2 by (simp add: copyFromGcsToLocal_def storage_NewClient_def)
  ultimately show ?thesis using r by simp
qed


subsection \<open>Transfers to a bucket, run again\<close>

lemma objects_update:
  assumes "buckets w b = Some objs"
  shows "objects (w\<lparr>buckets := (buckets w)(b \<mapsto> AList.update k c objs), handles := h\<rparr>) =
     objects w ++ [(b, k) \<mapsto> c]"
    and "objects (w\<lparr>buckets := (buckets w)(b \<mapsto> AList.update k c objs)\<rparr>) =
     objects w ++ [(b, k) \<mapsto> c]"
  using assms
  by (auto simp: objects_def object_at_def update_conv' map_add_def fun_eq_iff)

lemma objects_simps [simp]:
  "objects (w\<lparr>handles := h\<rparr>) = objects w"
  "objects (w\<lparr>log := l\<rparr>) = objects w"
  "objects (w\<lparr>files := f\<rparr>) = objects w"
  by (simp_all add: objects_def object_at_def)

text \<open>
  A transfer that returned in one world returns in any world with the same files and
  credentials where the bucket is there, and writes the same object.
\<close>

lemma copyFileFromLocalToGcs_sim:
  assumes ok: "copyFileFromLocalToGcs s db dk w = Ok u w'"
    and env: "files t = files w" "credentials t = credentials w" "buckets t db \<noteq> None"
  shows "\<exists>t' c. copyFileFromLocalToGcs s db dk t = Ok u t' \<and>
     objects w' = objects w ++ [(db, dk) \<mapsto> c] \<and> objects t' = objects t ++ [(db, dk) \<mapsto> c] \<and>
     files w' = files w \<and> credentials w' = credentials w \<and> buckets w' db \<noteq> None \<and>
     files t' = files t \<and> credentials t' = credentials t \<and> buckets t' db \<noteq> None"
proof -
  from ok have cr: "credentials w"
    by (auto simp: copyFileFromLocalToGcs_def storage_NewClient_def log_Fatal_def split: if_splits)
  let ?pre = "\<lambda>a. gcs_NewWriter db dk (log_Printf (Copying (Local s) (Gcs db dk))
      (a\<lparr>handles := handles a @ [Client], handles := handles a @ [Client, LocalReader s]\<rparr>))"
  from ok cr obtain c objs where ex: "lookup (files w) s \<noteq> None"
    and rd: "kind_at (files w) s = Some (IsFile c)"
    and b: "buckets w db = Some objs"
    and w': "w' = (let a = ?pre w in
        a\<lparr>buckets := (buckets a)(db \<mapsto> AList.update dk c objs),
          handles := remove1 (GcsWriter db dk) (handles a)\<rparr>)\<lparr>handles :=
            remove1 Client (remove1 (GcsWriter db dk) (handles (?pre w)))\<rparr>"
    by (auto simp: copyFileFromLocalToGcs_def storage_NewClient_def os_Open_def Let_def
        gcs_NewWriter_def gcs_Writer_Close_def log_Fatal_def log_Printf_def
        file_Read_def kind_at_def
        split: sum.splits option.splits node.splits)
  from env(3) obtain tobjs where tb: "buckets t db = Some tobjs" by auto
  let ?t' = "(let a = ?pre t in
        a\<lparr>buckets := (buckets a)(db \<mapsto> AList.update dk c tobjs),
          handles := remove1 (GcsWriter db dk) (handles a)\<rparr>)\<lparr>handles :=
            remove1 Client (remove1 (GcsWriter db dk) (handles (?pre t)))\<rparr>"
  have okt: "copyFileFromLocalToGcs s db dk t = Ok () ?t'"
    using ex rd cr env tb
    by (auto simp: copyFileFromLocalToGcs_def storage_NewClient_def os_Open_def Let_def
        gcs_NewWriter_def gcs_Writer_Close_def log_Fatal_def log_Printf_def
        file_Read_def kind_at_def
        split: sum.splits option.splits node.splits)
  have ow: "objects w' = objects w ++ [(db, dk) \<mapsto> c]"
    using b by (auto simp: w' Let_def gcs_NewWriter_def log_Printf_def objects_def object_at_def
        update_conv' map_add_def fun_eq_iff)
  have ot: "objects ?t' = objects t ++ [(db, dk) \<mapsto> c]"
    using tb by (auto simp: Let_def gcs_NewWriter_def log_Printf_def objects_def object_at_def
        update_conv' map_add_def fun_eq_iff)
  show ?thesis
    using okt ow ot
    by (intro exI [of _ ?t'] exI [of _ c])
       (simp add: w' Let_def gcs_NewWriter_def log_Printf_def)
qed


lemma copyFromLocalToGcs_fn_sim:
  assumes ok: "copyFromLocalToGcs_fn src db dp v w = Ok r w'"
    and env: "files t = files w" "credentials t = credentials w"
      "buckets w db \<noteq> None \<longrightarrow> buckets t db \<noteq> None"
  shows "\<exists>t' M. copyFromLocalToGcs_fn src db dp v t = Ok r t' \<and>
     objects w' = objects w ++ M \<and> objects t' = objects t ++ M \<and>
     files w' = files w \<and> credentials w' = credentials w \<and>
     files t' = files t \<and> credentials t' = credentials t \<and>
     (buckets w' db \<noteq> None \<longrightarrow> buckets t' db \<noteq> None) \<and>
     (buckets w db \<noteq> None \<longrightarrow> buckets w' db \<noteq> None)"
proof (cases v)
  case (fields p isDir err)
  from ok have e: "err = None"
    by (auto simp: fields copyFromLocalToGcs_fn_def log_Fatal_def split: option.splits)
  from ok e obtain rel where rel: "filepath_Rel src p = Inr rel"
    by (auto simp: fields copyFromLocalToGcs_fn_def log_Fatal_def split: sum.splits)
  show ?thesis
  proof (cases "rel \<noteq> [] \<and> \<not> isDir")
    case False
    with ok e rel have "w' = w" "r = None"
      by (auto simp: fields copyFromLocalToGcs_fn_def)
    with False e rel env show ?thesis
      by (intro exI [of _ t] exI [of _ Map.empty])
         (auto simp: fields copyFromLocalToGcs_fn_def)
  next
    case True
    let ?dk = "(if \<not> HasSuffix dp ''/'' then dp @ ''/'' else dp) @ pathString rel"
    from ok e rel True have f: "copyFileFromLocalToGcs p db ?dk w = Ok () w'" and r: "r = None"
      by (auto simp: fields copyFromLocalToGcs_fn_def split: outcome.splits)
    from f have "buckets w db \<noteq> None"
      by (auto simp: copyFileFromLocalToGcs_def storage_NewClient_def os_Open_def Let_def
        gcs_NewWriter_def gcs_Writer_Close_def log_Fatal_def log_Printf_def
        split: sum.splits option.splits if_splits)
    with env have "buckets t db \<noteq> None" by simp
    from copyFileFromLocalToGcs_sim [OF f env(1,2) this]
    obtain t' c where "copyFileFromLocalToGcs p db ?dk t = Ok () t'"
      "objects w' = objects w ++ [(db, ?dk) \<mapsto> c]" "objects t' = objects t ++ [(db, ?dk) \<mapsto> c]"
      "files w' = files w" "credentials w' = credentials w" "buckets w' db \<noteq> None"
      "files t' = files t" "credentials t' = credentials t" "buckets t' db \<noteq> None"
      by blast
    with e rel True r show ?thesis
      by (intro exI [of _ t'] exI [of _ "[(db, ?dk) \<mapsto> c]"])
         (simp add: fields copyFromLocalToGcs_fn_def)
  qed
qed

lemma walk_visits_gcs_sim:
  "walk_visits (copyFromLocalToGcs_fn src db dp) vs w = Ok r w1 \<Longrightarrow>
   files t = files w \<Longrightarrow> credentials t = credentials w \<Longrightarrow>
   (buckets w db \<noteq> None \<longrightarrow> buckets t db \<noteq> None) \<Longrightarrow>
   \<exists>t1 M. walk_visits (copyFromLocalToGcs_fn src db dp) vs t = Ok r t1 \<and>
     objects w1 = objects w ++ M \<and> objects t1 = objects t ++ M \<and>
     files w1 = files w \<and> credentials w1 = credentials w \<and>
     (buckets w db \<noteq> None \<longrightarrow> buckets w1 db \<noteq> None)"
proof (induction vs arbitrary: w t)
  case Nil
  then show ?case
    by (intro exI [of _ t] exI [of _ Map.empty]) auto
next
  case (Cons v vs)
  let ?fn = "copyFromLocalToGcs_fn src db dp"
  from Cons.prems(1) obtain w' where v: "?fn v w = Ok None w'"
    and rest: "walk_visits ?fn vs w' = Ok r w1"
    using walk_visits_never_errs(2) [of src db dp "[v]" w]
    by (auto split: outcome.splits option.splits)
  from copyFromLocalToGcs_fn_sim [OF v Cons.prems(2,3,4)]
  obtain t' M where t': "?fn v t = Ok None t'"
    and M: "objects w' = objects w ++ M" "objects t' = objects t ++ M"
    and e: "files w' = files w" "credentials w' = credentials w"
      "files t' = files t" "credentials t' = credentials t"
      "buckets w' db \<noteq> None \<longrightarrow> buckets t' db \<noteq> None"
    and keep: "buckets w db \<noteq> None \<longrightarrow> buckets w' db \<noteq> None"
    by blast
  from Cons.IH [OF rest, of t'] e Cons.prems(2,3)
  obtain t1 N where "walk_visits ?fn vs t' = Ok r t1"
    "objects w1 = objects w' ++ N" "objects t1 = objects t' ++ N"
    "files w1 = files w'" "credentials w1 = credentials w'"
    "buckets w' db \<noteq> None \<longrightarrow> buckets w1 db \<noteq> None"
    by auto
  with t' M e keep show ?case
    by (intro exI [of _ t1] exI [of _ "M ++ N"]) simp
qed


lemma copyFileFromLocalToGcs_bucket:
  "copyFileFromLocalToGcs s db dk w = Ok u w' \<Longrightarrow> buckets w db \<noteq> None"
  by (auto simp: copyFileFromLocalToGcs_def storage_NewClient_def os_Open_def Let_def
      gcs_NewWriter_def gcs_Writer_Close_def log_Fatal_def log_Printf_def
      split: sum.splits option.splits if_splits)

lemma copyFromLocalToGcs_again:
  assumes ok: "copyFromLocalToGcs src db dp w = Ok u w1"
  shows "\<exists>w2. copyFromLocalToGcs src db dp w1 = Ok u w2 \<and> objects w2 = objects w1"
proof -
  from ok obtain fi where st: "os_Stat src w = Inr fi"
    by (auto simp: copyFromLocalToGcs_def log_Fatal_def split: sum.splits)
  have f1: "files w1 = files w"
    using copyFromLocalToGcs_files [of src db dp w] ok by simp
  then have st1: "os_Stat src w1 = Inr fi"
    using st by (simp add: os_Stat_def)
  show ?thesis
  proof (cases fi)
    case False
    with ok st have c: "copyFileFromLocalToGcs src db dp w = Ok u w1"
      by (simp add: copyFromLocalToGcs_def)
    note b = copyFileFromLocalToGcs_bucket [OF c]
    from copyFileFromLocalToGcs_sim [OF c refl refl b]
    obtain c0 where w1: "objects w1 = objects w ++ [(db, dp) \<mapsto> c0]"
      "credentials w1 = credentials w" "buckets w1 db \<noteq> None"
      by blast
    from copyFileFromLocalToGcs_sim [OF c f1 w1(2,3)]
    obtain w2 c1 where "copyFileFromLocalToGcs src db dp w1 = Ok u w2"
      "objects w1 = objects w ++ [(db, dp) \<mapsto> c1]" "objects w2 = objects w1 ++ [(db, dp) \<mapsto> c1]"
      by blast
    then show ?thesis
      using False st1 by (auto simp: copyFromLocalToGcs_def map_add_twice)
  next
    case True
    let ?fn = "copyFromLocalToGcs_fn src db dp"
    from st obtain n where n: "lookup (files w) src = Some n"
      by (auto simp: os_Stat_def split: option.splits)
    from ok st True n have wk: "walk_visits ?fn (walk src n) w = Ok None w1"
      using walk_visits_never_errs(2) [of src db dp "walk src n" w]
      by (auto simp: copyFromLocalToGcs_def filepath_Walk_def log_Printf_def
          split: outcome.splits option.splits)
    from walk_visits_gcs_sim [OF wk refl refl]
    obtain M0 where w1: "objects w1 = objects w ++ M0" "credentials w1 = credentials w"
      "buckets w db \<noteq> None \<longrightarrow> buckets w1 db \<noteq> None"
      by blast
    from walk_visits_gcs_sim [OF wk f1 w1(2,3)]
    obtain w2 M where w2: "walk_visits ?fn (walk src n) w1 = Ok None w2"
      "objects w1 = objects w ++ M" "objects w2 = objects w1 ++ M"
      by blast
    have "copyFromLocalToGcs src db dp w1 = Ok () w2"
      using st1 True n f1 w2(1) by (simp add: copyFromLocalToGcs_def filepath_Walk_def)
    with w2 show ?thesis
      by (auto simp: map_add_twice)
  qed
qed


subsection \<open>A copy from bucket to bucket, run again\<close>

lemma filter_update_other:
  "\<not> P k \<Longrightarrow> filter P (map fst (AList.update k c objs)) = filter P (map fst objs)"
  by (induction objs) auto

lemma prefix_gcs_dest: "prefix dp (gcs_dest sp dp n)"
  by (simp add: gcs_dest_def)

lemma gcs_dest_apart:
  assumes "sb \<noteq> db \<or> (\<not> prefix sp dp \<and> \<not> prefix dp sp)"
  shows "sb \<noteq> db \<or> \<not> prefix sp (gcs_dest sp dp n)"
proof (cases "sb = db")
  case True
  with assms have ap: "\<not> prefix sp dp" "\<not> prefix dp sp" by auto
  have "\<not> prefix sp (gcs_dest sp dp n)"
  proof
    assume "prefix sp (gcs_dest sp dp n)"
    with prefix_gcs_dest [of dp sp n] have "prefix sp dp \<or> prefix dp sp"
      using prefix_same_cases by blast
    with ap show False by simp
  qed
  then show ?thesis by simp
qed simp

lemma copyFromGcsToGcs_loop_step:
  assumes "prefix sp n"
  shows "copyFromGcsToGcs_loop sb sp db dp (n # ns) w =
     (case copyFileFromGcsToGcs sb n db (gcs_dest sp dp n) w of
        Ok u w' \<Rightarrow> copyFromGcsToGcs_loop sb sp db dp ns w'
      | Exit m w' \<Rightarrow> Exit m w')"
proof -
  from assms have "slice_from (length sp) n = Some (drop (length sp) n)"
    by (auto simp: slice_from_def prefix_def)
  then show ?thesis
    by (simp add: gcs_dest_def)
qed

lemma copyFileFromGcsToGcs_sim:
  assumes ok: "copyFileFromGcsToGcs sb sk db dk w = Ok u w'"
    and env: "credentials t = credentials w" "object_at t sb sk = object_at w sb sk"
      "buckets w db \<noteq> None \<longrightarrow> buckets t db \<noteq> None"
    and ap: "sb \<noteq> db \<or> \<not> prefix sp dk"
  shows "\<exists>t' c. copyFileFromGcsToGcs sb sk db dk t = Ok u t' \<and>
     objects w' = objects w ++ [(db, dk) \<mapsto> c] \<and> objects t' = objects t ++ [(db, dk) \<mapsto> c] \<and>
     credentials w' = credentials w \<and> credentials t' = credentials t \<and>
     buckets w' db \<noteq> None \<and> buckets t' db \<noteq> None \<and>
     gcs_Objects sb sp w' = gcs_Objects sb sp w \<and> gcs_Objects sb sp t' = gcs_Objects sb sp t"
proof -
  from ok have cr: "credentials w"
    by (auto simp: copyFileFromGcsToGcs_def storage_NewClient_def log_Fatal_def split: if_splits)
  let ?pre = "\<lambda>a. log_Printf (Copying (Gcs sb sk) (Gcs db dk)) (a\<lparr>handles := handles a @ [Client]\<rparr>)"
  from ok cr obtain c dobjs where c: "object_at w sb sk = Some c"
    and b: "buckets w db = Some dobjs"
    and w': "w' = (?pre w)\<lparr>buckets := (buckets w)(db \<mapsto> AList.update dk c dobjs),
        handles := remove1 Client (handles (?pre w))\<rparr>"
    by (auto simp: copyFileFromGcsToGcs_def storage_NewClient_def gcs_Copier_Run_def Let_def
        log_Fatal_def log_Printf_def object_at_def split: sum.splits option.splits)
  from env(3) b obtain tobjs where tb: "buckets t db = Some tobjs" by auto
  let ?t' = "(?pre t)\<lparr>buckets := (buckets t)(db \<mapsto> AList.update dk c tobjs),
        handles := remove1 Client (handles (?pre t))\<rparr>"
  from c env(2) have ct: "object_at t sb sk = Some c" by simp
  have okt: "copyFileFromGcsToGcs sb sk db dk t = Ok () ?t'"
    using cr env(1) ct tb
    by (auto simp: copyFileFromGcsToGcs_def storage_NewClient_def gcs_Copier_Run_def Let_def
        log_Fatal_def log_Printf_def object_at_def split: sum.splits option.splits)
  have ow: "objects w' = objects w ++ [(db, dk) \<mapsto> c]"
    using b by (auto simp: w' log_Printf_def objects_def object_at_def
        update_conv' map_add_def fun_eq_iff)
  have ot: "objects ?t' = objects t ++ [(db, dk) \<mapsto> c]"
    using tb by (auto simp: log_Printf_def objects_def object_at_def
        update_conv' map_add_def fun_eq_iff)
  have lw: "gcs_Objects sb sp w' = gcs_Objects sb sp w"
    using b ap by (auto simp: w' gcs_Objects_def log_Printf_def filter_update_other)
  have lt: "gcs_Objects sb sp ?t' = gcs_Objects sb sp t"
    using tb ap by (auto simp: gcs_Objects_def log_Printf_def filter_update_other)
  show ?thesis
    using okt ow ot lw lt
    by (intro exI [of _ ?t'] exI [of _ c]) (simp add: w' log_Printf_def)
qed

lemma objects_other:
  assumes "objects w' = objects w ++ [(db, dk) \<mapsto> c]" and "sb \<noteq> db \<or> n \<noteq> dk"
  shows "object_at w' sb n = object_at w sb n"
proof -
  have "objects w' (sb, n) = objects w (sb, n)"
    using assms(2) by (auto simp: assms(1) map_add_def)
  then show ?thesis by (simp add: objects_def)
qed

lemma copyFromGcsToGcs_loop_sim:
  assumes ap: "sb \<noteq> db \<or> (\<not> prefix sp dp \<and> \<not> prefix dp sp)"
  shows "copyFromGcsToGcs_loop sb sp db dp ns w = Ok r w1 \<Longrightarrow> \<forall>n\<in>set ns. prefix sp n \<Longrightarrow>
     credentials t = credentials w \<Longrightarrow>
     \<forall>n. prefix sp n \<longrightarrow> object_at t sb n = object_at w sb n \<Longrightarrow>
     (buckets w db \<noteq> None \<longrightarrow> buckets t db \<noteq> None) \<Longrightarrow>
     \<exists>t1 M. copyFromGcsToGcs_loop sb sp db dp ns t = Ok r t1 \<and>
       objects w1 = objects w ++ M \<and> objects t1 = objects t ++ M \<and>
       credentials w1 = credentials w \<and>
       (\<forall>n. prefix sp n \<longrightarrow> object_at w1 sb n = object_at w sb n) \<and>
       (buckets w db \<noteq> None \<longrightarrow> buckets w1 db \<noteq> None) \<and>
       gcs_Objects sb sp w1 = gcs_Objects sb sp w"
proof (induction ns arbitrary: w t)
  case Nil
  then show ?case
    by (intro exI [of _ t] exI [of _ Map.empty]) auto
next
  case (Cons n ns)
  let ?dk = "gcs_dest sp dp n"
  from Cons.prems(2) have pn: "prefix sp n" and pns: "\<forall>n\<in>set ns. prefix sp n" by simp_all
  from Cons.prems(1) obtain w' where ok: "copyFileFromGcsToGcs sb n db ?dk w = Ok () w'"
    and rest: "copyFromGcsToGcs_loop sb sp db dp ns w' = Ok r w1"
    by (auto simp: copyFromGcsToGcs_loop_step [OF pn] simp del: copyFromGcsToGcs_loop.simps
        split: outcome.splits)
  note apk = gcs_dest_apart [OF ap, of n]
  from Cons.prems(4) pn have sn: "object_at t sb n = object_at w sb n" by simp
  from copyFileFromGcsToGcs_sim [OF ok Cons.prems(3) sn Cons.prems(5) apk]
  obtain t' c where t': "copyFileFromGcsToGcs sb n db ?dk t = Ok () t'"
    and M: "objects w' = objects w ++ [(db, ?dk) \<mapsto> c]" "objects t' = objects t ++ [(db, ?dk) \<mapsto> c]"
    and e: "credentials w' = credentials w" "credentials t' = credentials t"
      "buckets w' db \<noteq> None" "buckets t' db \<noteq> None"
      "gcs_Objects sb sp w' = gcs_Objects sb sp w"
    by blast
  have other: "sb \<noteq> db \<or> m \<noteq> ?dk" if "prefix sp m" for m
    using apk that by auto
  have sw: "\<forall>m. prefix sp m \<longrightarrow> object_at w' sb m = object_at w sb m"
    using objects_other [OF M(1) other] by blast
  have st: "\<forall>m. prefix sp m \<longrightarrow> object_at t' sb m = object_at w' sb m"
    using objects_other [OF M(2) other] sw Cons.prems(4) by simp
  have ct: "credentials t' = credentials w'"
    using e(1,2) Cons.prems(3) by simp
  from Cons.IH [OF rest pns ct st] e(3,4,5)
  obtain t1 N where "copyFromGcsToGcs_loop sb sp db dp ns t' = Ok r t1"
    "objects w1 = objects w' ++ N" "objects t1 = objects t' ++ N"
    "credentials w1 = credentials w'"
    "\<forall>n. prefix sp n \<longrightarrow> object_at w1 sb n = object_at w' sb n"
    "buckets w1 db \<noteq> None"
    "gcs_Objects sb sp w1 = gcs_Objects sb sp w'"
    by auto
  with t' M e sw show ?case
    by (intro exI [of _ t1] exI [of _ "[(db, ?dk) \<mapsto> c] ++ N"])
       (simp add: copyFromGcsToGcs_loop_step [OF pn] del: copyFromGcsToGcs_loop.simps)
qed

lemma copyFromGcsToGcs_loop_None:
  "copyFromGcsToGcs_loop sb sp db dp ns w = Ok r w1 \<Longrightarrow> r = None"
  by (induction ns arbitrary: w) (auto simp: panic_def split: option.splits outcome.splits if_splits)

lemma copyFromGcsToGcs_again:
  assumes ap: "sb \<noteq> db \<or> (\<not> prefix sp dp \<and> \<not> prefix dp sp)"
    and ok: "copyFromGcsToGcs sb sp db dp w = Ok r w1"
  shows "\<exists>w2. copyFromGcsToGcs sb sp db dp w1 = Ok r w2 \<and> objects w2 = objects w1"
proof -
  let ?w0 = "w\<lparr>handles := handles w @ [Client]\<rparr>"
  from ok obtain names where cr: "credentials w" and ls: "gcs_Objects sb sp w = Inr names"
    and l1: "copyFromGcsToGcs_loop sb sp db dp names ?w0 = Ok r w1"
    by (auto simp: copyFromGcsToGcs_def storage_NewClient_def log_Fatal_def
        split: if_splits sum.splits)
  note pre = gcs_Objects_prefix [OF ls]
  from copyFromGcsToGcs_loop_sim [OF ap l1 pre, of ?w0]
  obtain M0 where f: "credentials w1 = credentials ?w0"
    "\<forall>n. prefix sp n \<longrightarrow> object_at w1 sb n = object_at ?w0 sb n"
    "buckets ?w0 db \<noteq> None \<longrightarrow> buckets w1 db \<noteq> None"
    "gcs_Objects sb sp w1 = gcs_Objects sb sp ?w0"
    by auto
  let ?w1 = "w1\<lparr>handles := handles w1 @ [Client]\<rparr>"
  have env: "credentials ?w1 = credentials ?w0"
    "\<forall>n. prefix sp n \<longrightarrow> object_at ?w1 sb n = object_at ?w0 sb n"
    "buckets ?w0 db \<noteq> None \<longrightarrow> buckets ?w1 db \<noteq> None"
    using f by (simp_all add: object_at_def)
  from copyFromGcsToGcs_loop_sim [OF ap l1 pre env]
  obtain w2 M where w2: "copyFromGcsToGcs_loop sb sp db dp names ?w1 = Ok r w2"
    "objects w1 = objects ?w0 ++ M" "objects w2 = objects ?w1 ++ M"
    by blast
  have ls1: "gcs_Objects sb sp ?w1 = Inr names"
    using ls f(4) by simp
  have "copyFromGcsToGcs sb sp db dp w1 = Ok r w2"
    using cr f(1) ls1 w2(1) by (simp add: copyFromGcsToGcs_def storage_NewClient_def)
  moreover have "objects w2 = objects w1"
    using w2(2,3) by (simp add: map_add_twice)
  ultimately show ?thesis by blast
qed


lemma demo_first_runs:
  "\<exists>w1. copyFromLocalToLocal [''a''] [''dst''] demo_world = Ok () w1"
  "\<exists>w1. copyFromGcsToLocal ''bkt'' ''d/'' [''out''] demo_world = Ok None w1"
  "\<exists>w1. copyFromLocalToGcs [''a''] ''bkt'' ''up'' demo_world = Ok () w1"
  "\<exists>w1. copyFromGcsToGcs ''bkt'' ''d/'' ''bkt'' ''e'' demo_world = Ok None w1"
proof -
  show "\<exists>w1. copyFromLocalToLocal [''a''] [''dst''] demo_world = Ok () w1"
    by (simp add: copyFromLocalToLocal_def os_Stat_def filepath_Walk_def
      copyFromLocalToLocal_fn_def filepath_Rel_def filepath_Clean_def clean_step_def
      filepath_Join_def log_Fatal_def log_Printf_def demo_world_def
      copyFileFromLocalToLocal_def os_Open_def os_MkdirAll.simps os_Mkdir_def
      os_OpenFile_def io_Copy_def file_Read_def file_Write_def handle_Close_def
      filepath_Dir_def)
  show "\<exists>w1. copyFromGcsToLocal ''bkt'' ''d/'' [''out''] demo_world = Ok None w1"
    by (simp add: copyFromGcsToLocal_def storage_NewClient_def gcs_Objects_def
      copyFileFromGcsToLocal_def gcs_NewReader_def object_at_def file_Sync_def
      filepath_Clean_def clean_step_def slice_from_def
      filepath_Join_def log_Fatal_def log_Printf_def demo_world_def
      os_MkdirAll.simps os_Mkdir_def
      os_OpenFile_def io_Copy_def file_Read_def file_Write_def handle_Close_def
      filepath_Dir_def)
  show "\<exists>w1. copyFromLocalToGcs [''a''] ''bkt'' ''up'' demo_world = Ok () w1"
    by (simp add: copyFromLocalToGcs_def os_Stat_def filepath_Walk_def
      copyFromLocalToGcs_fn_def filepath_Rel_def filepath_Clean_def clean_step_def
      filepath_Join_def log_Fatal_def log_Printf_def demo_world_def
      copyFileFromLocalToGcs_def os_Open_def storage_NewClient_def gcs_NewWriter_def
      gcs_Writer_Close_def HasSuffix_def pathString_def
      io_Copy_def file_Read_def file_Write_def handle_Close_def)
  show "\<exists>w1. copyFromGcsToGcs ''bkt'' ''d/'' ''bkt'' ''e'' demo_world = Ok None w1"
    by (simp add: copyFromGcsToGcs_def storage_NewClient_def gcs_Objects_def
      copyFileFromGcsToGcs_def gcs_Copier_Run_def object_at_def slice_from_def HasSuffix_def
      log_Fatal_def log_Printf_def demo_world_def Let_def)
qed


lemma copy_into_itself_once:
  "copyFromLocalToLocal [''a''] [''a'', ''b''] small_world =
     Ok () \<lparr>files = Dir True [(''a'', Dir True [(''f'', File ''x''),
                                               (''b'', Dir True [(''f'', File ''x'')])])],
            buckets = Map.empty, credentials = True,
            handles = [LocalReader [''a'', ''f'']],
            log = [Copying (Local [''a'', ''f'']) (Local [''a'', ''b'', ''f''])]\<rparr>"
  by (simp add: copyFromLocalToLocal_def os_Stat_def filepath_Walk_def
      copyFromLocalToLocal_fn_def filepath_Rel_def filepath_Clean_def clean_step_def
      filepath_Join_def log_Fatal_def log_Printf_def small_world_def
      copyFileFromLocalToLocal_def os_Open_def os_MkdirAll.simps os_Mkdir_def
      os_OpenFile_def io_Copy_def file_Read_def file_Write_def handle_Close_def
      filepath_Dir_def)

text \<open>
  Claim C8 says that for every source and destination a second run of the same copy
  leaves the destination as the first run left it. That fails when the destination
  lies inside the source: the second run finds the files of the first run in the
  source tree and copies them one level further down. For a destination that lies
  apart from the source, a copy that has completed completes again and leaves the
  same files and objects: each transfer empties its destination before it writes,
  and a bucket object is replaced as a whole.
\<close>

theorem copy_again_same_destination:
  "(valid_path src \<and> valid_path dst \<and> \<not> prefix src dst \<and> \<not> prefix dst src \<and>
      lookup (files w) src = Some n \<and> wf_node n \<and>
      copyFromLocalToLocal src dst w = Ok u w1 \<longrightarrow>
      (\<exists>w2. copyFromLocalToLocal src dst w1 = Ok u w2 \<and>
            kind_at (files w2) = kind_at (files w1))) \<and>
   (valid_path dst \<and> copyFromGcsToLocal sb sp dst w = Ok r w1 \<longrightarrow>
      (\<exists>w2. copyFromGcsToLocal sb sp dst w1 = Ok r w2 \<and>
            kind_at (files w2) = kind_at (files w1))) \<and>
   (copyFromLocalToGcs src db dp w = Ok u w1 \<longrightarrow>
      (\<exists>w2. copyFromLocalToGcs src db dp w1 = Ok u w2 \<and> objects w2 = objects w1)) \<and>
   ((sb \<noteq> db \<or> (\<not> prefix sp dp \<and> \<not> prefix dp sp)) \<and>
      copyFromGcsToGcs sb sp db dp w = Ok r w1 \<longrightarrow>
      (\<exists>w2. copyFromGcsToGcs sb sp db dp w1 = Ok r w2 \<and> objects w2 = objects w1))"
  using copyFromLocalToLocal_again [of src dst w n u w1]
    copyFromGcsToLocal_again [of dst sb sp w r w1]
    copyFromLocalToGcs_again [of src db dp w u w1]
    copyFromGcsToGcs_again [of sb db sp dp w r w1]
  by blast

theorem copy_again_same_destination_witness:
  "(valid_path [''a''] \<and> valid_path [''dst''] \<and> \<not> prefix [''a''] [''dst''] \<and>
      \<not> prefix [''dst''] [''a''] \<and>
      lookup (files demo_world) [''a''] =
        Some (Dir True [(''sub'', Dir True [(''2.txt'', File ''two'')]),
                        (''1.txt'', File ''one''), (''empty'', Dir True [])]) \<and>
      wf_node (Dir True [(''sub'', Dir True [(''2.txt'', File ''two'')]),
                         (''1.txt'', File ''one''), (''empty'', Dir True [])])) \<and>
   (\<exists>w1 w2. copyFromLocalToLocal [''a''] [''dst''] demo_world = Ok () w1 \<and>
      copyFromLocalToLocal [''a''] [''dst''] w1 = Ok () w2 \<and>
      kind_at (files w2) = kind_at (files w1)) \<and>
   valid_path [''out''] \<and>
   (\<exists>w1 w2. copyFromGcsToLocal ''bkt'' ''d/'' [''out''] demo_world = Ok None w1 \<and>
      copyFromGcsToLocal ''bkt'' ''d/'' [''out''] w1 = Ok None w2 \<and>
      kind_at (files w2) = kind_at (files w1)) \<and>
   (\<exists>w1 w2. copyFromLocalToGcs [''a''] ''bkt'' ''up'' demo_world = Ok () w1 \<and>
      copyFromLocalToGcs [''a''] ''bkt'' ''up'' w1 = Ok () w2 \<and> objects w2 = objects w1) \<and>
   (\<not> prefix ''d/'' ''e'' \<and> \<not> prefix ''e'' ''d/'') \<and>
   (\<exists>w1 w2. copyFromGcsToGcs ''bkt'' ''d/'' ''bkt'' ''e'' demo_world = Ok None w1 \<and>
      copyFromGcsToGcs ''bkt'' ''d/'' ''bkt'' ''e'' w1 = Ok None w2 \<and> objects w2 = objects w1)"
proof -
  let ?D = "Dir True [(''sub'', Dir True [(''2.txt'', File ''two'')]),
                      (''1.txt'', File ''one''), (''empty'', Dir True [])]"
  have h1: "valid_path [''a''] \<and> valid_path [''dst''] \<and> \<not> prefix [''a''] [''dst''] \<and>
      \<not> prefix [''dst''] [''a''] \<and> lookup (files demo_world) [''a''] = Some ?D \<and> wf_node ?D"
    by (simp add: valid_path_def demo_world_def)
  have h2: "valid_path [''out'']" by (simp add: valid_path_def)
  have h4: "\<not> prefix ''d/'' ''e'' \<and> \<not> prefix ''e'' ''d/''" by simp
  from demo_first_runs obtain a b c d where
    a: "copyFromLocalToLocal [''a''] [''dst''] demo_world = Ok () a" and
    b: "copyFromGcsToLocal ''bkt'' ''d/'' [''out''] demo_world = Ok None b" and
    c: "copyFromLocalToGcs [''a''] ''bkt'' ''up'' demo_world = Ok () c" and
    d: "copyFromGcsToGcs ''bkt'' ''d/'' ''bkt'' ''e'' demo_world = Ok None d"
    by blast
  note t = copy_again_same_destination [where w = demo_world and src = "[''a'']"
      and sb = "''bkt''" and sp = "''d/''" and db = "''bkt''" and n = ?D]
  from t [where dst = "[''dst'']" and u = "()" and ?w1.0 = a] h1 a
  have r1: "\<exists>w1 w2. copyFromLocalToLocal [''a''] [''dst''] demo_world = Ok () w1 \<and>
      copyFromLocalToLocal [''a''] [''dst''] w1 = Ok () w2 \<and>
      kind_at (files w2) = kind_at (files w1)"
    by blast
  from t [where dst = "[''out'']" and r = None and ?w1.0 = b] h2 b
  have r2: "\<exists>w1 w2. copyFromGcsToLocal ''bkt'' ''d/'' [''out''] demo_world = Ok None w1 \<and>
      copyFromGcsToLocal ''bkt'' ''d/'' [''out''] w1 = Ok None w2 \<and>
      kind_at (files w2) = kind_at (files w1)"
    by blast
  from t [where dp = "''up''" and u = "()" and ?w1.0 = c] c
  have r3: "\<exists>w1 w2. copyFromLocalToGcs [''a''] ''bkt'' ''up'' demo_world = Ok () w1 \<and>
      copyFromLocalToGcs [''a''] ''bkt'' ''up'' w1 = Ok () w2 \<and> objects w2 = objects w1"
    by blast
  from t [where dp = "''e''" and r = None and ?w1.0 = d] h4 d
  have r4: "\<exists>w1 w2. copyFromGcsToGcs ''bkt'' ''d/'' ''bkt'' ''e'' demo_world = Ok None w1 \<and>
      copyFromGcsToGcs ''bkt'' ''d/'' ''bkt'' ''e'' w1 = Ok None w2 \<and> objects w2 = objects w1"
    by blast
  from h1 h2 h4 r1 r2 r3 r4 show ?thesis by blast
qed

theorem copy_into_itself_counterexample:
  "kind_at (files (final (copyFromLocalToLocal [''a''] [''a'', ''b''] small_world)))
     [''a'', ''b'', ''b'', ''f''] = None \<and>
   kind_at (files (final (copyFromLocalToLocal [''a''] [''a'', ''b'']
       (final (copyFromLocalToLocal [''a''] [''a'', ''b''] small_world)))))
     [''a'', ''b'', ''b'', ''f''] = Some (IsFile ''x'') \<and>
   object_at (final (copyFromGcsToGcs ''bkt'' ''d/'' ''bkt'' ''d/y'' demo_world))
     ''bkt'' ''d/y/y/x'' = None \<and>
   object_at (final (copyFromGcsToGcs ''bkt'' ''d/'' ''bkt'' ''d/y''
       (final (copyFromGcsToGcs ''bkt'' ''d/'' ''bkt'' ''d/y'' demo_world))))
     ''bkt'' ''d/y/y/x'' = Some ''X''"
proof -
  have "kind_at (files (final (copyFromLocalToLocal [''a''] [''a'', ''b''] small_world)))
       [''a'', ''b'', ''b'', ''f''] = None \<and>
     kind_at (files (final (copyFromLocalToLocal [''a''] [''a'', ''b'']
         (final (copyFromLocalToLocal [''a''] [''a'', ''b''] small_world)))))
       [''a'', ''b'', ''b'', ''f''] = Some (IsFile ''x'')"
    by (simp add: copy_into_itself_once)
       (simp add: copyFromLocalToLocal_def os_Stat_def filepath_Walk_def
        copyFromLocalToLocal_fn_def filepath_Rel_def filepath_Clean_def clean_step_def
        filepath_Join_def log_Fatal_def log_Printf_def
        copyFileFromLocalToLocal_def os_Open_def os_MkdirAll.simps os_Mkdir_def
        os_OpenFile_def io_Copy_def file_Read_def file_Write_def handle_Close_def
        filepath_Dir_def kind_at_def)
  moreover have "object_at (final (copyFromGcsToGcs ''bkt'' ''d/'' ''bkt'' ''d/y'' demo_world))
       ''bkt'' ''d/y/y/x'' = None \<and>
     object_at (final (copyFromGcsToGcs ''bkt'' ''d/'' ''bkt'' ''d/y''
         (final (copyFromGcsToGcs ''bkt'' ''d/'' ''bkt'' ''d/y'' demo_world))))
       ''bkt'' ''d/y/y/x'' = Some ''X''"
    by (simp add: copyFromGcsToGcs_def storage_NewClient_def gcs_Objects_def
        copyFileFromGcsToGcs_def gcs_Copier_Run_def object_at_def slice_from_def HasSuffix_def
        log_Fatal_def log_Printf_def demo_world_def Let_def suffix_to_prefix)
  ultimately show ?thesis by blast
qed

section \<open>The destination of each listed object\<close>










end
